theory Spec2Isabelle
  imports Main "HOL-Library.Word" "HOL-Library.Multiset" "HOL-Library.Product_Lexorder"
begin

section \<open>Data model of deps/uv/src/timer.c\<close>

text \<open>
  A \<^verbatim>\<open>uv_timer_t*\<close> is an address; the model uses a natural number for it. A callback
  (\<^verbatim>\<open>uv_timer_cb\<close>) is a function pointer: again an address, with \<open>None\<close> for
  \<^verbatim>\<open>NULL\<close>. What the code behind a callback address does is given to
  \<^verbatim>\<open>uv__run_timers\<close> as an environment.
\<close>

type_synonym handle_id = nat
type_synonym cb_id = nat

text \<open>
  The fields of \<^verbatim>\<open>uv_timer_t\<close> that timer.c reads or writes. \<open>timeout\<close> and
  \<open>repeat\<close> are \<^verbatim>\<open>uint64_t\<close> in the source (the parameters of
  \<^verbatim>\<open>uv_timer_start\<close>, the local \<^verbatim>\<open>clamped_timeout\<close>).
\<close>

text \<open>
  Modelled from the spec: the declaration of \<^verbatim>\<open>uv_timer_t\<close> (uv.h) is absent. The
  field \<open>start_id\<close> receives the value of \<^verbatim>\<open>loop->timer_counter\<close>, a fixed-width
  unsigned C integer (\<^verbatim>\<open>uint64_t\<close> in libuv; the spec allows a "wraparound-tolerant"
  counter), so it is a 64-bit word. The handle flags of uv-common.h are absent as well; the
  spec names two of them, \<open>active\<close> and \<open>closing\<close>, and they are two booleans here.
\<close>

record uv_timer_t =
  timer_cb :: "cb_id option"
  timeout :: "64 word"
  repeat :: "64 word"
  start_id :: "64 word"
  active :: bool
  closing :: bool

text \<open>
  The loop: the cached time \<^verbatim>\<open>loop->time\<close> (64 bits: the sum
  \<^verbatim>\<open>handle->loop->time + timeout\<close> is tested for wrap-around against a
  \<^verbatim>\<open>uint64_t\<close>), the allocator \<^verbatim>\<open>loop->timer_counter\<close>, the timer heap, and
  the memory that holds the timer handles of this loop (every \<^verbatim>\<open>handle->loop\<close> is this
  loop).
\<close>

text \<open>
  Modelled from the spec: the declaration of \<^verbatim>\<open>uv_loop_t\<close> (uv.h) is absent. The
  allocator \<open>timer_counter\<close> is a fixed-width unsigned C integer (\<^verbatim>\<open>uint64_t\<close> in
  libuv), so it is a 64-bit word: \<^verbatim>\<open>timer_counter++\<close> wraps around from \<open>2^64 - 1\<close> to
  0. The heap is the list of the handles linked into it, in the order of a binary heap laid
  out as an array (see below).
\<close>

record uv_loop_t =
  time :: "64 word"
  timer_counter :: "64 word"
  timer_heap :: "handle_id list"
  handles :: "handle_id \<Rightarrow> uv_timer_t"

section \<open>The ordered deadline store (heap-inl.h)\<close>

text \<open>
  Modelled from the spec: heap-inl.h (\<^verbatim>\<open>heap_insert\<close>, \<^verbatim>\<open>heap_remove\<close>,
  \<^verbatim>\<open>heap_min\<close>, \<^verbatim>\<open>heap_node_swap\<close>) is absent. The spec (section 4.1) describes
  a binary min-heap, as an array or a tree at the implementation's choice, generic over an
  injected comparator. Here it is the array layout: the root at index 0, the parent of the
  node at index \<open>i > 0\<close> at index \<open>(i - 1) div 2\<close>, its children at \<open>2 * i + 1\<close> and
  \<open>2 * i + 2\<close>.
\<close>

definition heap_parent :: "nat \<Rightarrow> nat" where
  "heap_parent i = (i - 1) div 2"

text \<open>Modelled from the spec: exchanging the positions of two nodes of the heap.\<close>

definition heap_node_swap :: "'a list \<Rightarrow> nat \<Rightarrow> nat \<Rightarrow> 'a list" where
  "heap_node_swap xs i j = xs[i := xs ! j, j := xs ! i]"

text \<open>
  Modelled from the spec: "sifting the new node toward the root while a parent compares
  greater". The node at index \<open>i\<close> moves up as long as it is less than its parent.
\<close>

function sift_up :: "('a \<Rightarrow> 'a \<Rightarrow> bool) \<Rightarrow> 'a list \<Rightarrow> nat \<Rightarrow> 'a list" where
  "sift_up lt xs i =
     (if i = 0 \<or> length xs \<le> i then xs
      else if lt (xs ! i) (xs ! heap_parent i)
           then sift_up lt (heap_node_swap xs i (heap_parent i)) (heap_parent i)
           else xs)"
  by pat_completeness auto
termination
  by (relation "measure (\<lambda>(_, _, i). i)") (auto simp: heap_parent_def)

text \<open>
  Modelled from the spec: the sift-down of \<open>remove\<close>. The node at index \<open>i\<close> is exchanged
  with its smallest child as long as a child is less than it.
\<close>

function sift_down :: "('a \<Rightarrow> 'a \<Rightarrow> bool) \<Rightarrow> 'a list \<Rightarrow> nat \<Rightarrow> 'a list" where
  "sift_down lt xs i =
     (let l = 2 * i + 1;
          r = 2 * i + 2;
          s = (if l < length xs \<and> lt (xs ! l) (xs ! i) then l else i);
          smallest = (if r < length xs \<and> lt (xs ! r) (xs ! s) then r else s)
      in if smallest = i then xs
         else sift_down lt (heap_node_swap xs i smallest) smallest)"
  by pat_completeness auto
termination
  by (relation "measure (\<lambda>(_, xs, i). length xs - i)")
     (auto simp: heap_node_swap_def split: if_splits)

text \<open>
  Modelled from the spec: \<open>insert(node, less_than)\<close> "adds node to the structure; restores
  heap order by sifting the new node toward the root".
\<close>

definition heap_insert :: "('a \<Rightarrow> 'a \<Rightarrow> bool) \<Rightarrow> 'a list \<Rightarrow> 'a \<Rightarrow> 'a list" where
  "heap_insert lt xs x = sift_up lt (xs @ [x]) (length xs)"

text \<open>
  Modelled from the spec: the position of a node, which \<open>remove\<close> finds "via its embedded
  linkage (not by search)". In the array it is the index of the node; the search here gives
  the same index.
\<close>

fun index_of :: "'a list \<Rightarrow> 'a \<Rightarrow> nat option" where
  "index_of [] x = None"
| "index_of (y # ys) x = (if y = x then Some 0 else map_option Suc (index_of ys x))"

text \<open>
  Modelled from the spec: \<open>remove(node, less_than)\<close> "removes an arbitrary node ... by
  locating its position via its embedded linkage, replacing it with a boundary node, and
  restoring order via sift-down and/or sift-up as needed". The boundary node is the last
  one of the array. Removing a node that is not in the heap is a contract violation of the
  caller; the model leaves the heap as it is.
\<close>

definition heap_remove :: "('a \<Rightarrow> 'a \<Rightarrow> bool) \<Rightarrow> 'a list \<Rightarrow> 'a \<Rightarrow> 'a list" where
  "heap_remove lt xs x =
     (case index_of xs x of
        None \<Rightarrow> xs
      | Some i \<Rightarrow>
          if i = length xs - 1 then butlast xs
          else sift_up lt (sift_down lt (butlast (xs[i := last xs])) i) i)"

text \<open>
  Modelled from the spec: \<open>min()\<close> "returns the smallest node without removing it, or
  nothing if the structure is empty": the root of the heap.
\<close>

definition heap_min :: "'a list \<Rightarrow> 'a option" where
  "heap_min xs = (case xs of [] \<Rightarrow> None | x # _ \<Rightarrow> Some x)"

text \<open>
  Modelled from the spec: "iterating the store's minimum repeatedly (removing each)"
  (section 8), the sequence of nodes that comes out of the store. The fuel is the number of
  nodes still to extract.
\<close>

fun extract_n :: "nat \<Rightarrow> ('a \<Rightarrow> 'a \<Rightarrow> bool) \<Rightarrow> 'a list \<Rightarrow> 'a list" where
  "extract_n 0 lt xs = []"
| "extract_n (Suc n) lt xs =
     (case heap_min xs of
        None \<Rightarrow> []
      | Some x \<Rightarrow> x # extract_n n lt (heap_remove lt xs x))"

text \<open>Modelled from the spec: the same iteration, until the store is empty.\<close>

definition extract_all :: "('a \<Rightarrow> 'a \<Rightarrow> bool) \<Rightarrow> 'a list \<Rightarrow> 'a list" where
  "extract_all lt xs = extract_n (length xs) lt xs"

section \<open>The handle flags (uv-common.h)\<close>

text \<open>
  Modelled from the spec: the macros \<^verbatim>\<open>uv__is_active\<close>, \<^verbatim>\<open>uv__is_closing\<close>,
  \<^verbatim>\<open>uv__handle_start\<close>, \<^verbatim>\<open>uv__handle_stop\<close> and \<^verbatim>\<open>uv__handle_init\<close> of
  uv-common.h are absent. The spec gives their interface: \<open>is_active\<close> and \<open>is_closing\<close>
  read the two flags, start marks the handle active, stop marks it inactive, and init
  "resets the handle to the inactive ... state".
\<close>

definition uv__is_active :: "uv_timer_t \<Rightarrow> bool" where
  "uv__is_active h = active h"

text \<open>Modelled from the spec: \<open>is_closing(handle)\<close>, the closing flag.\<close>

definition uv__is_closing :: "uv_timer_t \<Rightarrow> bool" where
  "uv__is_closing h = closing h"

text \<open>Modelled from the spec: "marks it active".\<close>

definition uv__handle_start :: "uv_timer_t \<Rightarrow> uv_timer_t" where
  "uv__handle_start h = h\<lparr>active := True\<rparr>"

text \<open>Modelled from the spec: "marks it inactive".\<close>

definition uv__handle_stop :: "uv_timer_t \<Rightarrow> uv_timer_t" where
  "uv__handle_stop h = h\<lparr>active := False\<rparr>"

text \<open>
  Modelled from the spec: init "resets the handle to the inactive ... state"; both flags
  are cleared.
\<close>

definition uv__handle_init :: "uv_timer_t \<Rightarrow> uv_timer_t" where
  "uv__handle_init h = h\<lparr>active := False, closing := False\<rparr>"

text \<open>
  Modelled from the spec: the value of \<^verbatim>\<open>UV_EINVAL\<close> (uv-errno.h) is absent; the spec
  says "a negative/failure result". This is the POSIX value; only its being different from
  0 matters.
\<close>

definition UV_EINVAL :: int where
  "UV_EINVAL = - 22"

text \<open>
  \<^verbatim>\<open>INT_MAX\<close> of the platform's limits.h ("the platform's maximum representable
  poll-timeout value" of the spec), for a 32-bit \<^verbatim>\<open>int\<close>.
\<close>

definition INT_MAX :: int where
  "INT_MAX = 2147483647"

section \<open>The timer scheduler (timer.c)\<close>

text \<open>Writing one handle of the loop's memory.\<close>

definition set_handle :: "uv_loop_t \<Rightarrow> handle_id \<Rightarrow> uv_timer_t \<Rightarrow> uv_loop_t" where
  "set_handle l h v = l\<lparr>handles := (handles l)(h := v)\<rparr>"

text \<open>
  \<^verbatim>\<open>timer_less_than\<close>: the comparator handed to the heap. The heap nodes are the handles
  (\<^verbatim>\<open>container_of\<close>), read from the memory \<open>hs\<close>.
\<close>

definition timer_less_than :: "(handle_id \<Rightarrow> uv_timer_t) \<Rightarrow> handle_id \<Rightarrow> handle_id \<Rightarrow> bool" where
  "timer_less_than hs ha hb =
     (let a = hs ha; b = hs hb in
      if timeout a < timeout b then True
      else if timeout b < timeout a then False
      else start_id a < start_id b)"

text \<open>\<^verbatim>\<open>uv_timer_init\<close>: returns 0. The field \<open>start_id\<close> is not written.\<close>

definition uv_timer_init :: "uv_loop_t \<Rightarrow> handle_id \<Rightarrow> int \<times> uv_loop_t" where
  "uv_timer_init l h =
     (0, set_handle l h
           ((uv__handle_init (handles l h))\<lparr>timer_cb := None, timeout := 0, repeat := 0\<rparr>))"

text \<open>\<^verbatim>\<open>uv_timer_stop\<close>: the result code and the loop after the call.\<close>

definition uv_timer_stop :: "uv_loop_t \<Rightarrow> handle_id \<Rightarrow> int \<times> uv_loop_t" where
  "uv_timer_stop l h =
     (if \<not> uv__is_active (handles l h) then (0, l)
      else
        let l1 = l\<lparr>timer_heap := heap_remove (timer_less_than (handles l)) (timer_heap l) h\<rparr>;
            l2 = set_handle l1 h (uv__handle_stop (handles l1 h))
        in (0, l2))"

text \<open>
  \<^verbatim>\<open>uv_timer_start\<close>. The sum \<^verbatim>\<open>loop->time + timeout\<close> wraps around at 64 bits, as
  \<open>+\<close> on \<open>64 word\<close> does; \<^verbatim>\<open>(uint64_t) -1\<close> is \<open>- 1\<close>, the largest value. The
  increment \<^verbatim>\<open>timer_counter++\<close> wraps around in the same way.
\<close>

definition uv_timer_start ::
    "uv_loop_t \<Rightarrow> handle_id \<Rightarrow> cb_id option \<Rightarrow> 64 word \<Rightarrow> 64 word \<Rightarrow> int \<times> uv_loop_t" where
  "uv_timer_start l h cb tmo rep =
     (if uv__is_closing (handles l h) \<or> cb = None then (UV_EINVAL, l)
      else
        let l1 = (if uv__is_active (handles l h) then snd (uv_timer_stop l h) else l);
            added = time l1 + tmo;
            clamped_timeout = (if added < tmo then - 1 else added);
            l2 = set_handle l1 h
                   ((handles l1 h)\<lparr>timer_cb := cb, timeout := clamped_timeout, repeat := rep,
                                    start_id := timer_counter l1\<rparr>);
            l3 = l2\<lparr>timer_counter := timer_counter l2 + 1\<rparr>;
            l4 = l3\<lparr>timer_heap := heap_insert (timer_less_than (handles l3)) (timer_heap l3) h\<rparr>;
            l5 = set_handle l4 h (uv__handle_start (handles l4 h))
        in (0, l5))"

text \<open>
  \<^verbatim>\<open>uv_timer_again\<close>. The results of the inner \<^verbatim>\<open>uv_timer_stop\<close> and
  \<^verbatim>\<open>uv_timer_start\<close> are dropped, as in the source.
\<close>

definition uv_timer_again :: "uv_loop_t \<Rightarrow> handle_id \<Rightarrow> int \<times> uv_loop_t" where
  "uv_timer_again l h =
     (if timer_cb (handles l h) = None then (UV_EINVAL, l)
      else if repeat (handles l h) \<noteq> 0 then
        let l1 = snd (uv_timer_stop l h);
            l2 = snd (uv_timer_start l1 h (timer_cb (handles l1 h))
                        (repeat (handles l1 h)) (repeat (handles l1 h)))
        in (0, l2)
      else (0, l))"

definition uv_timer_set_repeat :: "uv_loop_t \<Rightarrow> handle_id \<Rightarrow> 64 word \<Rightarrow> uv_loop_t" where
  "uv_timer_set_repeat l h rep = set_handle l h ((handles l h)\<lparr>repeat := rep\<rparr>)"

definition uv_timer_get_repeat :: "uv_loop_t \<Rightarrow> handle_id \<Rightarrow> 64 word" where
  "uv_timer_get_repeat l h = repeat (handles l h)"

definition uv_timer_get_due_in :: "uv_loop_t \<Rightarrow> handle_id \<Rightarrow> 64 word" where
  "uv_timer_get_due_in l h =
     (if time l \<ge> timeout (handles l h) then 0 else timeout (handles l h) - time l)"

text \<open>
  \<^verbatim>\<open>uv__next_timeout\<close>: the result is a C \<^verbatim>\<open>int\<close>; after the clamp the conversion
  \<^verbatim>\<open>(int) diff\<close> keeps the value.
\<close>

definition uv__next_timeout :: "uv_loop_t \<Rightarrow> int" where
  "uv__next_timeout l =
     (case heap_min (timer_heap l) of
        None \<Rightarrow> - 1
      | Some h \<Rightarrow>
          if timeout (handles l h) \<le> time l then 0
          else
            let diff = uint (timeout (handles l h) - time l)
            in if diff > INT_MAX then INT_MAX else diff)"

text \<open>
  \<^verbatim>\<open>uv__run_timers\<close>. \<open>cbs\<close> is the code behind the callback addresses: what a callback
  does to the loop when it is called with a handle. A callback may start or stop timers, so
  the loop need not end: not returning is the value \<open>None\<close>. Calling the \<^verbatim>\<open>NULL\<close>
  callback is a crash, the fault \<open>NullCallback\<close>. The result carries, beside the loop,
  the handles whose callbacks were invoked, in the order of the calls.
\<close>

datatype fault = NullCallback

type_synonym callbacks = "cb_id \<Rightarrow> handle_id \<Rightarrow> uv_loop_t \<Rightarrow> uv_loop_t"

partial_function (option) run_timers_from ::
    "callbacks \<Rightarrow> uv_loop_t \<Rightarrow> handle_id list \<Rightarrow> (fault + handle_id list \<times> uv_loop_t) option" where
  "run_timers_from cbs l fired =
     (case heap_min (timer_heap l) of
        None \<Rightarrow> Some (Inr (fired, l))
      | Some h \<Rightarrow>
          if timeout (handles l h) > time l then Some (Inr (fired, l))
          else
            let l1 = snd (uv_timer_stop l h);
                l2 = snd (uv_timer_again l1 h)
            in (case timer_cb (handles l2 h) of
                  None \<Rightarrow> Some (Inl NullCallback)
                | Some cb \<Rightarrow> run_timers_from cbs (cbs cb h l2) (fired @ [h])))"

definition uv__run_timers ::
    "callbacks \<Rightarrow> uv_loop_t \<Rightarrow> (fault + handle_id list \<times> uv_loop_t) option" where
  "uv__run_timers cbs l = run_timers_from cbs l []"

text \<open>\<^verbatim>\<open>uv__timer_close\<close>.\<close>

definition uv__timer_close :: "uv_loop_t \<Rightarrow> handle_id \<Rightarrow> uv_loop_t" where
  "uv__timer_close l h = snd (uv_timer_stop l h)"

section \<open>Invariants and notions used by the proofs\<close>

text \<open>
  The heap property of the array layout under a key: no node is below its parent. The
  comparator of the timers compares the keys \<open>(timeout, start_id)\<close> lexicographically
  (\<open>tkey\<close>).
\<close>

definition heap_ok :: "('a \<Rightarrow> 'k::linorder) \<Rightarrow> 'a list \<Rightarrow> bool" where
  "heap_ok key xs = (\<forall>j<length xs. 0 < j \<longrightarrow> key (xs ! heap_parent j) \<le> key (xs ! j))"

definition tkey :: "(handle_id \<Rightarrow> uv_timer_t) \<Rightarrow> handle_id \<Rightarrow> 64 word \<times> 64 word" where
  "tkey hs a = (timeout (hs a), start_id (hs a))"

text \<open>
  The invariant of the spec's data model: a handle is linked into the heap exactly when its
  active flag is set. A node is linked at most once (the list has no duplicates).
\<close>

definition heap_active_inv :: "uv_loop_t \<Rightarrow> bool" where
  "heap_active_inv l \<longleftrightarrow>
     distinct (timer_heap l) \<and>
     (\<forall>h. uv__is_active (handles l h) \<longleftrightarrow> h \<in> set (timer_heap l))"

text \<open>
  The consistent loops: beside the invariant above, every handle in the heap has a
  callback and is not closing, and the heap is ordered.
\<close>

definition timer_inv :: "uv_loop_t \<Rightarrow> bool" where
  "timer_inv l \<longleftrightarrow>
     heap_active_inv l \<and>
     (\<forall>h\<in>set (timer_heap l).
        timer_cb (handles l h) \<noteq> None \<and> \<not> uv__is_closing (handles l h)) \<and>
     heap_ok (tkey (handles l)) (timer_heap l)"

text \<open>
  The counter has not caught up with a handle of the heap: every handle in the heap carries
  a \<open>start_id\<close> below the counter and different from the others'. This holds as long as
  the 64-bit counter has not wrapped around since the oldest handle of the heap was started.
\<close>

definition start_id_inv :: "uv_loop_t \<Rightarrow> bool" where
  "start_id_inv l \<longleftrightarrow>
     (\<forall>h\<in>set (timer_heap l). start_id (handles l h) < timer_counter l) \<and>
     inj_on (\<lambda>h. start_id (handles l h)) (set (timer_heap l))"

text \<open>The handle as a successful \<^verbatim>\<open>uv_timer_start\<close> leaves it.\<close>

definition started :: "uv_loop_t \<Rightarrow> handle_id \<Rightarrow> cb_id option \<Rightarrow> 64 word \<Rightarrow> 64 word \<Rightarrow> uv_timer_t" where
  "started l h cb tmo rep =
     (handles l h)\<lparr>timer_cb := cb,
        timeout := (if time l + tmo < tmo then - 1 else time l + tmo),
        repeat := rep, start_id := timer_counter l, active := True\<rparr>"

text \<open>
  The deadline of a handle re-armed now: loop time plus its repeat, saturated. The handles
  that are due: in the heap, with a deadline at or before the loop time.
\<close>

definition rearmed :: "uv_loop_t \<Rightarrow> handle_id \<Rightarrow> 64 word" where
  "rearmed l h =
     (if time l + repeat (handles l h) < repeat (handles l h) then - 1
      else time l + repeat (handles l h))"

definition due :: "uv_loop_t \<Rightarrow> handle_id set" where
  "due l = {h \<in> set (timer_heap l). timeout (handles l h) \<le> time l}"

text \<open>
  Callbacks that leave the timers alone: they do not start, stop or re-arm a timer and do
  not refresh the loop time; they may write repeat values (\<^verbatim>\<open>uv_timer_set_repeat\<close>).
  Inert callbacks change nothing of the loop; \<open>cb_noop\<close> is one.
\<close>

definition cb_keeps_timers :: "callbacks \<Rightarrow> bool" where
  "cb_keeps_timers cbs \<longleftrightarrow>
     (\<forall>c x l. time (cbs c x l) = time l \<and> timer_counter (cbs c x l) = timer_counter l \<and>
        timer_heap (cbs c x l) = timer_heap l \<and>
        (\<forall>h. \<exists>r. handles (cbs c x l) h = (handles l h)\<lparr>repeat := r\<rparr>))"

definition cb_inert :: "callbacks \<Rightarrow> bool" where
  "cb_inert cbs \<longleftrightarrow> (\<forall>c x l. cbs c x l = l)"

definition cb_noop :: callbacks where
  "cb_noop c x s = s"

subsection \<open>Concrete loops for the witnesses\<close>

text \<open>
  A zeroed handle, and a loop with an empty heap, the counter at 0, cached time \<open>t\<close> and
  zeroed handle memory.
\<close>

definition handle_zero :: uv_timer_t where
  "handle_zero = \<lparr>timer_cb = None, timeout = 0, repeat = 0, start_id = 0, active = False, closing = False\<rparr>"

definition loop_at :: "64 word \<Rightarrow> uv_loop_t" where
  "loop_at t = \<lparr>time = t, timer_counter = 0, timer_heap = [], handles = (\<lambda>_. handle_zero)\<rparr>"

text \<open>
  Handle 3 started at time 0 with delay 10 and repeat 10; the same loop once the cached
  time has jumped to 35 (the repeat-drift scenario of the spec); a second handle, 5,
  started at time 0 with the same delay, so that the two deadlines tie.
\<close>

definition one_timer :: uv_loop_t where
  "one_timer = snd (uv_timer_start (loop_at 0) 3 (Some 1) 10 10)"

definition drifted :: uv_loop_t where
  "drifted = one_timer\<lparr>time := 35\<rparr>"

definition two_timers :: uv_loop_t where
  "two_timers = snd (uv_timer_start one_timer 5 (Some 1) 10 0)"

text \<open>Three handles started at time 0 with the delays 30, 10 and 20, in this order.\<close>

definition three_timers :: uv_loop_t where
  "three_timers =
     snd (uv_timer_start (snd (uv_timer_start (snd (uv_timer_start (loop_at 0) 3 (Some 1) 30 0))
       5 (Some 1) 10 0)) 7 (Some 1) 20 0)"

text \<open>
  Loops whose cached time is the largest 64-bit value: handle 3 started there with repeat 1,
  and the loop \<open>one_timer\<close> after its time has jumped there. A handle that was started
  with repeat 5 and then closed: stopped by \<^verbatim>\<open>uv__timer_close\<close>, with the closing flag set
  (what the handle-closing collaborator of the spec does).
\<close>

definition at_max :: uv_loop_t where
  "at_max = snd (uv_timer_start (loop_at (- 1)) 3 (Some 1) 0 1)"

definition overdue_at_max :: uv_loop_t where
  "overdue_at_max = one_timer\<lparr>time := - 1\<rparr>"

definition closed_timer :: uv_loop_t where
  "closed_timer =
     (let l = uv__timer_close (snd (uv_timer_start (loop_at 0) 3 (Some 1) 5 5)) 3
      in set_handle l 3 ((handles l 3)\<lparr>closing := True\<rparr>))"

text \<open>
  The loop \<open>one_timer\<close> once the counter has reached the largest 64-bit value (handle 3
  is still in the heap with \<open>start_id\<close> 0, other handles were started and stopped in
  between), and that loop after two more handles, 5 and 7, were started with the delay 10.
\<close>

definition counter_at_max :: uv_loop_t where
  "counter_at_max = one_timer\<lparr>timer_counter := - 1\<rparr>"

definition counter_wrapped :: uv_loop_t where
  "counter_wrapped =
     snd (uv_timer_start (snd (uv_timer_start counter_at_max 5 (Some 1) 10 0)) 7 (Some 1) 10 0)"

section \<open>Facts about the model\<close>

lemma time_uv_timer_stop: "time (snd (uv_timer_stop l h)) = time l"
  by (simp add: uv_timer_stop_def set_handle_def Let_def)

lemma olen_iff:
  fixes t d :: "64 word"
  shows "(t + d < d) = (2 ^ 64 \<le> unat t + unat d)"
proof -
  have a: "(d \<le> d + t) = (unat d + unat t < 2 ^ 64)"
    using no_olen_add_nat [of d t] by simp
  have b: "d + t = t + d" by (rule add.commute)
  have c: "unat d + unat t = unat t + unat d" by (rule add.commute)
  from a have "(d \<le> t + d) = (unat t + unat d < 2 ^ 64)"
    unfolding b c .
  then have "(\<not> d \<le> t + d) = (\<not> unat t + unat d < 2 ^ 64)"
    by (rule arg_cong [where f = Not])
  then show ?thesis unfolding not_le not_less .
qed

lemma clamp_unat:
  fixes t d :: "64 word"
  shows "unat (if t + d < d then - 1 else t + d) = min (unat t + unat d) (2 ^ 64 - 1)"
proof (cases "t + d < d")
  case True
  then have "2 ^ 64 \<le> unat t + unat d" by (simp only: olen_iff)
  moreover have "unat (- 1 :: 64 word) = 2 ^ 64 - 1" by (simp add: unsigned_minus_1_eq_mask mask_eq_exp_minus_1)
  ultimately show ?thesis using True by simp
next
  case False
  then have lt: "unat t + unat d < 2 ^ 64" by (simp only: olen_iff not_le)
  then have "unat (t + d) = unat t + unat d" using unat_add_lem [of t d] by simp
  then show ?thesis using False lt by simp
qed

lemma timeout_after_start:
  "cb \<noteq> None \<Longrightarrow> \<not> uv__is_closing (handles l h) \<Longrightarrow>
   timeout (handles (snd (uv_timer_start l h cb d rep)) h) =
     (if time l + d < d then - 1 else time l + d)"
  by (auto simp: uv_timer_start_def Let_def set_handle_def uv__handle_start_def time_uv_timer_stop)

declare sift_up.simps [simp del] sift_down.simps [simp del]

lemma heap_parent_less: "0 < i \<Longrightarrow> heap_parent i < i"
  by (simp add: heap_parent_def)

lemma heap_parent_child: "0 < j \<Longrightarrow> heap_parent j = i \<longleftrightarrow> j = 2 * i + 1 \<or> j = 2 * i + 2"
  by (simp add: heap_parent_def) arith

lemma length_heap_node_swap: "length (heap_node_swap xs i j) = length xs"
  by (simp add: heap_node_swap_def)

lemma nth_heap_node_swap:
  "i < length xs \<Longrightarrow> j < length xs \<Longrightarrow>
   heap_node_swap xs i j ! k = (if k = j then xs ! i else if k = i then xs ! j else xs ! k)"
  by (simp add: heap_node_swap_def nth_list_update)

lemma mset_heap_node_swap:
  "i < length xs \<Longrightarrow> j < length xs \<Longrightarrow> mset (heap_node_swap xs i j) = mset xs"
  unfolding heap_node_swap_def by (rule mset_swap)

lemma length_sift_up: "length (sift_up lt xs i) = length xs"
proof (induction i arbitrary: xs rule: less_induct)
  case (less i)
  show ?case
  proof (cases "i = 0 \<or> length xs \<le> i")
    case True
    then show ?thesis by (subst sift_up.simps) simp
  next
    case False
    then have "heap_parent i < i" by (simp add: heap_parent_less)
    then have "length (sift_up lt (heap_node_swap xs i (heap_parent i)) (heap_parent i)) = length xs"
      using less.IH by (simp add: length_heap_node_swap)
    then show ?thesis by (subst sift_up.simps) simp
  qed
qed

lemma mset_sift_up: "mset (sift_up lt xs i) = mset xs"
proof (induction i arbitrary: xs rule: less_induct)
  case (less i)
  show ?case
  proof (cases "i = 0 \<or> length xs \<le> i")
    case True
    then show ?thesis by (subst sift_up.simps) simp
  next
    case False
    then have p: "heap_parent i < i" by (simp add: heap_parent_less)
    then have "mset (sift_up lt (heap_node_swap xs i (heap_parent i)) (heap_parent i))
        = mset (heap_node_swap xs i (heap_parent i))"
      using less.IH by simp
    also have "\<dots> = mset xs" using False p by (simp add: mset_heap_node_swap)
    finally show ?thesis by (subst sift_up.simps) simp
  qed
qed

lemma sift_up_heap:
  fixes key :: "'a \<Rightarrow> 'k::linorder"
  assumes "i < length xs"
    and "\<forall>j<length xs. 0 < j \<longrightarrow> j \<noteq> i \<longrightarrow> key (xs ! heap_parent j) \<le> key (xs ! j)"
    and "\<forall>j<length xs. 0 < j \<longrightarrow> heap_parent j = i \<longrightarrow> 0 < i \<longrightarrow>
           key (xs ! heap_parent i) \<le> key (xs ! j)"
  shows "heap_ok key (sift_up (\<lambda>a b. key a < key b) xs i)"
  using assms
proof (induction i arbitrary: xs rule: less_induct)
  case (less i)
  note edges = less.prems(2) and grand = less.prems(3) and len = less.prems(1)
  show ?case
  proof (cases "i = 0")
    case True
    then have "sift_up (\<lambda>a b. key a < key b) xs i = xs" by (subst sift_up.simps) simp
    moreover have "heap_ok key xs"
      unfolding heap_ok_def using edges True by simp
    ultimately show ?thesis by simp
  next
    case pos: False
    let ?p = "heap_parent i"
    have p: "?p < i" using pos by (simp add: heap_parent_less)
    show ?thesis
    proof (cases "key (xs ! i) < key (xs ! ?p)")
      case False
      then have "sift_up (\<lambda>a b. key a < key b) xs i = xs"
        using pos len by (subst sift_up.simps) simp
      moreover have "heap_ok key xs"
        unfolding heap_ok_def
      proof (intro allI impI)
        fix j assume j: "j < length xs" "0 < j"
        show "key (xs ! heap_parent j) \<le> key (xs ! j)"
        proof (cases "j = i")
          case True
          then show ?thesis using False by simp
        next
          case False
          then show ?thesis using edges j by simp
        qed
      qed
      ultimately show ?thesis by simp
    next
      case True
      let ?ys = "heap_node_swap xs i ?p"
      have plen: "?p < length xs" using p len by simp
      have nth: "\<And>k. ?ys ! k = (if k = ?p then xs ! i else if k = i then xs ! ?p else xs ! k)"
        using len plen by (simp add: nth_heap_node_swap)
      have e': "\<forall>j<length ?ys. 0 < j \<longrightarrow> j \<noteq> ?p \<longrightarrow> key (?ys ! heap_parent j) \<le> key (?ys ! j)"
      proof (intro allI impI)
        fix j assume j: "j < length ?ys" "0 < j" "j \<noteq> ?p"
        then have jl: "j < length xs" by (simp add: length_heap_node_swap)
        have pj: "heap_parent j < j" using j by (simp add: heap_parent_less)
        show "key (?ys ! heap_parent j) \<le> key (?ys ! j)"
        proof (cases "j = i")
          case True
          then show ?thesis using \<open>key (xs ! i) < key (xs ! ?p)\<close> p by (simp add: nth)
        next
          case ji: False
          have ej: "key (xs ! heap_parent j) \<le> key (xs ! j)" using edges jl j ji by simp
          show ?thesis
          proof (cases "heap_parent j = ?p")
            case True
            then show ?thesis
              using ej \<open>key (xs ! i) < key (xs ! ?p)\<close> j ji by (simp add: nth)
          next
            case np: False
            show ?thesis
            proof (cases "heap_parent j = i")
              case True
              then have "key (xs ! ?p) \<le> key (xs ! j)" using grand jl j pos by simp
              then show ?thesis using True j ji p by (simp add: nth)
            next
              case False
              then show ?thesis using ej np j ji by (simp add: nth)
            qed
          qed
        qed
      qed
      have g': "\<forall>j<length ?ys. 0 < j \<longrightarrow> heap_parent j = ?p \<longrightarrow> 0 < ?p \<longrightarrow>
           key (?ys ! heap_parent ?p) \<le> key (?ys ! j)"
      proof (intro allI impI)
        fix j assume j: "j < length ?ys" "0 < j" "heap_parent j = ?p" "0 < ?p"
        then have jl: "j < length xs" by (simp add: length_heap_node_swap)
        have pp: "heap_parent ?p < ?p" using j by (simp add: heap_parent_less)
        have epp: "key (xs ! heap_parent ?p) \<le> key (xs ! ?p)"
          using edges plen j p by simp
        have jp: "j \<noteq> ?p" using j heap_parent_less [of j] by simp
        show "key (?ys ! heap_parent ?p) \<le> key (?ys ! j)"
        proof (cases "j = i")
          case True
          then show ?thesis using epp pp p by (simp add: nth)
        next
          case False
          then have "key (xs ! heap_parent j) \<le> key (xs ! j)"
            using edges [rule_format, of j] jl j(2) by blast
          then have "key (xs ! ?p) \<le> key (xs ! j)" using j(3) by simp
          then show ?thesis using epp pp p False jp by (simp add: nth)
        qed
      qed
      have "heap_ok key (sift_up (\<lambda>a b. key a < key b) ?ys ?p)"
        using less.IH [OF p _ e' g'] plen by (simp add: length_heap_node_swap)
      moreover have "sift_up (\<lambda>a b. key a < key b) xs i = sift_up (\<lambda>a b. key a < key b) ?ys ?p"
        using pos len True by (subst sift_up.simps) simp
      ultimately show ?thesis by simp
    qed
  qed
qed

lemma sift_down_step:
  obtains (stop) "sift_down lt xs i = xs"
  | (step) m where "i < m" "m < length xs"
      "sift_down lt xs i = sift_down lt (heap_node_swap xs i m) m"
proof -
  let ?l = "2 * i + 1" and ?r = "2 * i + 2"
  let ?s = "if ?l < length xs \<and> lt (xs ! ?l) (xs ! i) then ?l else i"
  let ?m = "if ?r < length xs \<and> lt (xs ! ?r) (xs ! ?s) then ?r else ?s"
  have eq: "sift_down lt xs i = (if ?m = i then xs else sift_down lt (heap_node_swap xs i ?m) ?m)"
    by (subst sift_down.simps) (simp only: Let_def)
  show thesis
  proof (cases "?m = i")
    case True
    then show thesis using eq stop by presburger
  next
    case False
    then have "i < ?m" "?m < length xs" by (auto split: if_splits)
    moreover have "sift_down lt xs i = sift_down lt (heap_node_swap xs i ?m) ?m"
      using eq False by presburger
    ultimately show thesis by (rule step)
  qed
qed

lemma length_sift_down: "length (sift_down lt xs i) = length xs"
proof (induction "length xs - i" arbitrary: xs i rule: less_induct)
  case less
  show ?case
  proof (cases rule: sift_down_step [where lt = lt and xs = xs and i = i])
    case stop
    then show ?thesis by simp
  next
    case (step m)
    have "length (heap_node_swap xs i m) - m < length xs - i"
      using step by (simp add: length_heap_node_swap)
    then have "length (sift_down lt (heap_node_swap xs i m) m) = length (heap_node_swap xs i m)"
      by (rule less.hyps)
    then show ?thesis using step by (simp add: length_heap_node_swap)
  qed
qed

lemma mset_sift_down: "mset (sift_down lt xs i) = mset xs"
proof (induction "length xs - i" arbitrary: xs i rule: less_induct)
  case less
  show ?case
  proof (cases rule: sift_down_step [where lt = lt and xs = xs and i = i])
    case stop
    then show ?thesis by simp
  next
    case (step m)
    have "length (heap_node_swap xs i m) - m < length xs - i"
      using step by (simp add: length_heap_node_swap)
    then have "mset (sift_down lt (heap_node_swap xs i m) m) = mset (heap_node_swap xs i m)"
      by (rule less.hyps)
    also have "\<dots> = mset xs" using step by (simp add: mset_heap_node_swap)
    finally show ?thesis using step by simp
  qed
qed

lemma sift_down_key_cases:
  fixes key :: "'a \<Rightarrow> 'k::linorder"
  obtains (stop) "sift_down (\<lambda>a b. key a < key b) xs i = xs"
      "\<And>c. c < length xs \<Longrightarrow> 0 < c \<Longrightarrow> heap_parent c = i \<Longrightarrow> key (xs ! i) \<le> key (xs ! c)"
  | (step) m where "0 < m" "heap_parent m = i" "m < length xs" "key (xs ! m) < key (xs ! i)"
      "\<And>c. c < length xs \<Longrightarrow> 0 < c \<Longrightarrow> heap_parent c = i \<Longrightarrow> key (xs ! m) \<le> key (xs ! c)"
      "sift_down (\<lambda>a b. key a < key b) xs i =
         sift_down (\<lambda>a b. key a < key b) (heap_node_swap xs i m) m"
proof -
  let ?l = "2 * i + 1" and ?r = "2 * i + 2"
  let ?s = "if ?l < length xs \<and> key (xs ! ?l) < key (xs ! i) then ?l else i"
  let ?m = "if ?r < length xs \<and> key (xs ! ?r) < key (xs ! ?s) then ?r else ?s"
  have eq: "sift_down (\<lambda>a b. key a < key b) xs i =
      (if ?m = i then xs else sift_down (\<lambda>a b. key a < key b) (heap_node_swap xs i ?m) ?m)"
    by (subst sift_down.simps) (simp only: Let_def)
  have ch: "\<And>c. 0 < c \<Longrightarrow> heap_parent c = i \<Longrightarrow> c = ?l \<or> c = ?r"
    using heap_parent_child by blast
  show thesis
  proof (cases "?m = i")
    case True
    have "sift_down (\<lambda>a b. key a < key b) xs i = xs" using eq True by presburger
    moreover have "\<And>c. c < length xs \<Longrightarrow> 0 < c \<Longrightarrow> heap_parent c = i \<Longrightarrow>
        key (xs ! i) \<le> key (xs ! c)"
    proof -
      fix c assume c: "c < length xs" "0 < c" "heap_parent c = i"
      then have "c = ?l \<or> c = ?r" using ch by blast
      then show "key (xs ! i) \<le> key (xs ! c)"
        using True c(1) by (auto split: if_splits)
    qed
    ultimately show thesis by (rule stop)
  next
    case False
    have m1: "0 < ?m" using False by (auto split: if_splits)
    have m2: "heap_parent ?m = i" using False by (auto simp: heap_parent_def split: if_splits)
    have m3: "?m < length xs" using False by (auto split: if_splits)
    have m4: "key (xs ! ?m) < key (xs ! i)" using False by (auto split: if_splits)
    have m5: "\<And>c. c < length xs \<Longrightarrow> 0 < c \<Longrightarrow> heap_parent c = i \<Longrightarrow>
        key (xs ! ?m) \<le> key (xs ! c)"
    proof -
      fix c assume c: "c < length xs" "0 < c" "heap_parent c = i"
      then have "c = ?l \<or> c = ?r" using ch by blast
      then show "key (xs ! ?m) \<le> key (xs ! c)"
        using False c(1) by (auto split: if_splits)
    qed
    have m6: "sift_down (\<lambda>a b. key a < key b) xs i =
         sift_down (\<lambda>a b. key a < key b) (heap_node_swap xs i ?m) ?m"
      using eq False by presburger
    show thesis using m1 m2 m3 m4 m5 m6 by (rule step)
  qed
qed

lemma sift_down_heap:
  fixes key :: "'a \<Rightarrow> 'k::linorder"
  assumes "i < length xs"
    and "\<And>j. j < length xs \<Longrightarrow> 0 < j \<Longrightarrow> heap_parent j \<noteq> i \<Longrightarrow>
           key (xs ! heap_parent j) \<le> key (xs ! j)"
    and "\<And>j. j < length xs \<Longrightarrow> 0 < j \<Longrightarrow> heap_parent j = i \<Longrightarrow> 0 < i \<Longrightarrow>
           key (xs ! heap_parent i) \<le> key (xs ! j)"
  shows "heap_ok key (sift_down (\<lambda>a b. key a < key b) xs i)"
  using assms
proof (induction "length xs - i" arbitrary: xs i rule: less_induct)
  case less
  note len = less.prems(1) and edges = less.prems(2) and grand = less.prems(3)
  show ?case
  proof (cases rule: sift_down_key_cases [where key = key and xs = xs and i = i])
    case stop
    have "heap_ok key xs"
      unfolding heap_ok_def
    proof (intro allI impI)
      fix j assume j: "j < length xs" "0 < j"
      show "key (xs ! heap_parent j) \<le> key (xs ! j)"
      proof (cases "heap_parent j = i")
        case True
        then show ?thesis using stop(2) [of j] j by simp
      next
        case False
        then show ?thesis using edges j by simp
      qed
    qed
    then show ?thesis using stop(1) by simp
  next
    case (step m)
    let ?ys = "heap_node_swap xs i m"
    have im: "i < m" using step(1,2) heap_parent_less [of m] by simp
    have nth: "\<And>k. ?ys ! k = (if k = m then xs ! i else if k = i then xs ! m else xs ! k)"
      using len step(3) by (simp add: nth_heap_node_swap)
    have ylen: "length ?ys = length xs" by (simp add: length_heap_node_swap)
    have e': "\<And>j. j < length ?ys \<Longrightarrow> 0 < j \<Longrightarrow> heap_parent j \<noteq> m \<Longrightarrow>
           key (?ys ! heap_parent j) \<le> key (?ys ! j)"
    proof -
      fix j assume j: "j < length ?ys" "0 < j" "heap_parent j \<noteq> m"
      have jl: "j < length xs" using j ylen by simp
      have pj: "heap_parent j < j" using j by (simp add: heap_parent_less)
      show "key (?ys ! heap_parent j) \<le> key (?ys ! j)"
      proof (cases "j = m")
        case True
        then show ?thesis using step(2,4) im by (simp add: nth)
      next
        case jm: False
        show ?thesis
        proof (cases "j = i")
          case True
          then have "0 < i" using j by simp
          then have "key (xs ! heap_parent i) \<le> key (xs ! m)"
            using grand [of m] step by simp
          moreover have "heap_parent i \<noteq> m" "heap_parent i \<noteq> i"
            using heap_parent_less [of i] \<open>0 < i\<close> im by simp_all
          ultimately show ?thesis using True im by (simp add: nth)
        next
          case ji: False
          show ?thesis
          proof (cases "heap_parent j = i")
            case True
            then have "key (xs ! m) \<le> key (xs ! j)" using step(5) [of j] jl j by simp
            then show ?thesis using True jm ji im by (simp add: nth)
          next
            case False
            then have "key (xs ! heap_parent j) \<le> key (xs ! j)" using edges jl j by simp
            then show ?thesis using False j(3) jm ji by (simp add: nth)
          qed
        qed
      qed
    qed
    have g': "\<And>j. j < length ?ys \<Longrightarrow> 0 < j \<Longrightarrow> heap_parent j = m \<Longrightarrow> 0 < m \<Longrightarrow>
           key (?ys ! heap_parent m) \<le> key (?ys ! j)"
    proof -
      fix j assume j: "j < length ?ys" "0 < j" "heap_parent j = m" "0 < m"
      have jl: "j < length xs" using j ylen by simp
      have mj: "m < j" using j heap_parent_less [of j] by simp
      have "heap_parent j \<noteq> i" using j im by simp
      then have "key (xs ! heap_parent j) \<le> key (xs ! j)" using edges [of j] jl j(2) by blast
      then have "key (xs ! m) \<le> key (xs ! j)" using j(3) by simp
      then show "key (?ys ! heap_parent m) \<le> key (?ys ! j)"
        using step(2) mj im by (simp add: nth)
    qed
    have "length ?ys - m < length xs - i" using im step(3) ylen by simp
    moreover have "m < length ?ys" using step(3) ylen by simp
    ultimately have "heap_ok key (sift_down (\<lambda>a b. key a < key b) ?ys m)"
      using e' g' by (rule less.hyps)
    then show ?thesis using step(6) by simp
  qed
qed

lemma sift_up_id:
  fixes key :: "'a \<Rightarrow> 'k::linorder"
  assumes "heap_ok key xs"
  shows "sift_up (\<lambda>a b. key a < key b) xs i = xs"
proof (cases "i = 0 \<or> length xs \<le> i")
  case True
  then show ?thesis by (subst sift_up.simps) simp
next
  case False
  then have "key (xs ! heap_parent i) \<le> key (xs ! i)"
    using assms by (simp add: heap_ok_def)
  then have "\<not> key (xs ! i) < key (xs ! heap_parent i)" by (simp add: not_less)
  then show ?thesis using False by (subst sift_up.simps) simp
qed

lemma sift_down_id:
  fixes key :: "'a \<Rightarrow> 'k::linorder"
  assumes "\<And>c. c < length xs \<Longrightarrow> 0 < c \<Longrightarrow> heap_parent c = i \<Longrightarrow> key (xs ! i) \<le> key (xs ! c)"
  shows "sift_down (\<lambda>a b. key a < key b) xs i = xs"
proof (cases rule: sift_down_key_cases [where key = key and xs = xs and i = i])
  case stop
  then show ?thesis by simp
next
  case (step m)
  then have "key (xs ! i) \<le> key (xs ! m)" using assms [of m] by simp
  then show ?thesis using step(4) by simp
qed

lemma heap_ok_min:
  fixes key :: "'a \<Rightarrow> 'k::linorder"
  assumes "heap_ok key xs" "i < length xs"
  shows "key (xs ! 0) \<le> key (xs ! i)"
  using assms(2)
proof (induction i rule: less_induct)
  case (less i)
  show ?case
  proof (cases "i = 0")
    case True
    then show ?thesis by simp
  next
    case False
    then have p: "heap_parent i < i" by (simp add: heap_parent_less)
    then have "key (xs ! 0) \<le> key (xs ! heap_parent i)" using less by simp
    moreover have "key (xs ! heap_parent i) \<le> key (xs ! i)"
      using assms(1) less.prems False by (simp add: heap_ok_def)
    ultimately show ?thesis by (rule order_trans)
  qed
qed

lemma heap_insert_heap:
  fixes key :: "'a \<Rightarrow> 'k::linorder"
  assumes "heap_ok key xs"
  shows "heap_ok key (heap_insert (\<lambda>a b. key a < key b) xs x)"
  unfolding heap_insert_def
proof (rule sift_up_heap)
  show "length xs < length (xs @ [x])" by simp
  show "\<forall>j<length (xs @ [x]). 0 < j \<longrightarrow> j \<noteq> length xs \<longrightarrow>
      key ((xs @ [x]) ! heap_parent j) \<le> key ((xs @ [x]) ! j)"
  proof (intro allI impI)
    fix j assume j: "j < length (xs @ [x])" "0 < j" "j \<noteq> length xs"
    then have jl: "j < length xs" by simp
    then have "heap_parent j < length xs" using heap_parent_less [of j] j by simp
    then show "key ((xs @ [x]) ! heap_parent j) \<le> key ((xs @ [x]) ! j)"
      using assms jl j by (simp add: nth_append heap_ok_def)
  qed
  show "\<forall>j<length (xs @ [x]). 0 < j \<longrightarrow> heap_parent j = length xs \<longrightarrow> 0 < length xs \<longrightarrow>
      key ((xs @ [x]) ! heap_parent (length xs)) \<le> key ((xs @ [x]) ! j)"
  proof (intro allI impI)
    fix j assume j: "j < length (xs @ [x])" "0 < j" "heap_parent j = length xs"
    then have False using heap_parent_less [of j] by simp
    then show "key ((xs @ [x]) ! heap_parent (length xs)) \<le> key ((xs @ [x]) ! j)" ..
  qed
qed

lemma mset_heap_insert: "mset (heap_insert lt xs x) = add_mset x (mset xs)"
  by (simp add: heap_insert_def mset_sift_up)

lemma index_of_Some: "index_of xs x = Some i \<Longrightarrow> i < length xs \<and> xs ! i = x"
  by (induction xs arbitrary: i) (auto split: if_splits)

lemma index_of_None: "index_of xs x = None \<longleftrightarrow> x \<notin> set xs"
  by (induction xs) auto

lemma heap_remove_absent: "x \<notin> set xs \<Longrightarrow> heap_remove lt xs x = xs"
  by (simp add: heap_remove_def index_of_None [symmetric])

lemma mset_heap_remove:
  assumes "x \<in> set xs"
  shows "mset (heap_remove lt xs x) = mset xs - {#x#}"
proof -
  obtain i where i: "index_of xs x = Some i"
    using assms index_of_None [of xs x] by (cases "index_of xs x") auto
  then have il: "i < length xs" and ix: "xs ! i = x" using index_of_Some by fastforce+
  have ne: "xs \<noteq> []" using il by auto
  have whole: "mset xs = add_mset (last xs) (mset (butlast xs))"
  proof -
    have "mset xs = mset (butlast xs @ [last xs])" using ne by simp
    then show ?thesis by (simp only: mset_append mset.simps) simp
  qed
  show ?thesis
  proof (cases "i = length xs - 1")
    case True
    then have "last xs = x" using ix ne by (simp add: last_conv_nth)
    then show ?thesis using i True whole by (simp add: heap_remove_def)
  next
    case False
    then have ib: "i < length (butlast xs)" using il by simp
    have bx: "butlast xs ! i = x" using ib ix by (simp add: nth_butlast)
    have "mset (heap_remove lt xs x) = mset (butlast (xs[i := last xs]))"
      using i False by (simp add: heap_remove_def mset_sift_up mset_sift_down)
    also have "\<dots> = mset ((butlast xs)[i := last xs])"
      using False by (simp add: butlast_list_update)
    also have "\<dots> = add_mset (last xs) (mset (butlast xs) - {#x#})"
      using ib bx by (simp add: mset_update)
    also have "\<dots> = add_mset (last xs) (mset (butlast xs)) - {#x#}"
    proof -
      have "x \<in># mset (butlast xs)" using ib bx by (metis nth_mem set_mset_mset)
      then show ?thesis by simp
    qed
    finally show ?thesis using whole by simp
  qed
qed

lemma heap_ok_butlast:
  fixes key :: "'a \<Rightarrow> 'k::linorder"
  assumes "heap_ok key xs"
  shows "heap_ok key (butlast xs)"
  unfolding heap_ok_def
proof (intro allI impI)
  fix j assume j: "j < length (butlast xs)" "0 < j"
  have pj: "heap_parent j < j" using j(2) by (rule heap_parent_less)
  have jl: "j < length xs" using j(1) by simp
  have "key (xs ! heap_parent j) \<le> key (xs ! j)"
    using assms jl j(2) unfolding heap_ok_def by blast
  moreover have "butlast xs ! j = xs ! j" using j(1) by (rule nth_butlast)
  moreover have "butlast xs ! heap_parent j = xs ! heap_parent j"
    using pj j(1) by (simp add: nth_butlast)
  ultimately show "key (butlast xs ! heap_parent j) \<le> key (butlast xs ! j)" by simp
qed

lemma heap_repair:
  fixes key :: "'a \<Rightarrow> 'k::linorder"
  assumes il: "i < length ys"
    and edge: "\<And>j. j < length ys \<Longrightarrow> 0 < j \<Longrightarrow> j \<noteq> i \<Longrightarrow> heap_parent j \<noteq> i \<Longrightarrow>
           key (ys ! heap_parent j) \<le> key (ys ! j)"
    and grand: "\<And>j. j < length ys \<Longrightarrow> 0 < j \<Longrightarrow> heap_parent j = i \<Longrightarrow> 0 < i \<Longrightarrow>
           key (ys ! heap_parent i) \<le> key (ys ! j)"
  shows "heap_ok key (sift_up (\<lambda>a b. key a < key b) (sift_down (\<lambda>a b. key a < key b) ys i) i)"
proof (cases "0 < i \<and> key (ys ! i) < key (ys ! heap_parent i)")
  case True
  have below: "\<And>c. c < length ys \<Longrightarrow> 0 < c \<Longrightarrow> heap_parent c = i \<Longrightarrow> key (ys ! i) \<le> key (ys ! c)"
  proof -
    fix c assume c: "c < length ys" "0 < c" "heap_parent c = i"
    have "key (ys ! i) \<le> key (ys ! heap_parent i)" using True less_imp_le by blast
    moreover have "key (ys ! heap_parent i) \<le> key (ys ! c)" using c True by (simp add: grand)
    ultimately show "key (ys ! i) \<le> key (ys ! c)" by (rule order_trans)
  qed
  have "sift_down (\<lambda>a b. key a < key b) ys i = ys" using below by (rule sift_down_id)
  moreover have "heap_ok key (sift_up (\<lambda>a b. key a < key b) ys i)"
  proof (rule sift_up_heap [OF il])
    show "\<forall>j<length ys. 0 < j \<longrightarrow> j \<noteq> i \<longrightarrow> key (ys ! heap_parent j) \<le> key (ys ! j)"
    proof (intro allI impI)
      fix j assume j: "j < length ys" "0 < j" "j \<noteq> i"
      show "key (ys ! heap_parent j) \<le> key (ys ! j)"
      proof (cases "heap_parent j = i")
        case True
        then show ?thesis using below [of j] j by simp
      next
        case False
        then show ?thesis using edge [of j] j by blast
      qed
    qed
    show "\<forall>j<length ys. 0 < j \<longrightarrow> heap_parent j = i \<longrightarrow> 0 < i \<longrightarrow>
        key (ys ! heap_parent i) \<le> key (ys ! j)"
      using grand by blast
  qed
  ultimately show ?thesis by simp
next
  case False
  have "heap_ok key (sift_down (\<lambda>a b. key a < key b) ys i)"
  proof (rule sift_down_heap [OF il])
    fix j assume j: "j < length ys" "0 < j" "heap_parent j \<noteq> i"
    show "key (ys ! heap_parent j) \<le> key (ys ! j)"
    proof (cases "j = i")
      case True
      then have "\<not> key (ys ! j) < key (ys ! heap_parent j)" using False j(2) by blast
      then show ?thesis by (simp add: not_less)
    next
      case False
      then show ?thesis using edge [of j] j by blast
    qed
  next
    fix j assume "j < length ys" "0 < j" "heap_parent j = i" "0 < i"
    then show "key (ys ! heap_parent i) \<le> key (ys ! j)" by (rule grand)
  qed
  then show ?thesis by (simp only: sift_up_id)
qed

lemma heap_remove_heap:
  fixes key :: "'a \<Rightarrow> 'k::linorder"
  assumes ok: "heap_ok key xs"
  shows "heap_ok key (heap_remove (\<lambda>a b. key a < key b) xs x)"
proof (cases "index_of xs x")
  case None
  then show ?thesis using ok by (simp add: heap_remove_def)
next
  case (Some i)
  then have il: "i < length xs" using index_of_Some by fastforce
  show ?thesis
  proof (cases "i = length xs - 1")
    case True
    then show ?thesis using Some ok by (simp add: heap_remove_def heap_ok_butlast)
  next
    case False
    define ys where "ys = butlast (xs[i := last xs])"
    have ylen: "length ys = length xs - 1" by (simp add: ys_def)
    have iy: "i < length ys" using False il ylen by simp
    have nth: "ys ! k = xs ! k" if "k < length ys" "k \<noteq> i" for k
    proof -
      have "ys ! k = (xs[i := last xs]) ! k"
        unfolding ys_def using that(1) ylen by (simp add: nth_butlast)
      then show ?thesis using that(2) by simp
    qed
    have edge: "key (xs ! heap_parent j) \<le> key (xs ! j)" if "j < length xs" "0 < j" for j
      using ok that unfolding heap_ok_def by blast
    have res: "heap_remove (\<lambda>a b. key a < key b) xs x =
        sift_up (\<lambda>a b. key a < key b) (sift_down (\<lambda>a b. key a < key b) ys i) i"
      using Some False by (simp add: heap_remove_def ys_def)
    have "heap_ok key (sift_up (\<lambda>a b. key a < key b) (sift_down (\<lambda>a b. key a < key b) ys i) i)"
    proof (rule heap_repair [OF iy])
      fix j assume j: "j < length ys" "0 < j" "j \<noteq> i" "heap_parent j \<noteq> i"
      have pj: "heap_parent j < j" using j(2) by (rule heap_parent_less)
      have "key (xs ! heap_parent j) \<le> key (xs ! j)" using edge [of j] j ylen by simp
      moreover have "ys ! j = xs ! j" using j by (simp add: nth)
      moreover have "ys ! heap_parent j = xs ! heap_parent j" using j pj by (simp add: nth)
      ultimately show "key (ys ! heap_parent j) \<le> key (ys ! j)" by simp
    next
      fix j assume j: "j < length ys" "0 < j" "heap_parent j = i" "0 < i"
      have pj: "heap_parent j < j" using j(2) by (rule heap_parent_less)
      have pi: "heap_parent i < i" using j(4) by (rule heap_parent_less)
      have "key (xs ! heap_parent i) \<le> key (xs ! i)" using edge [of i] il j(4) by simp
      moreover have "key (xs ! i) \<le> key (xs ! j)" using edge [of j] j ylen by simp
      ultimately have "key (xs ! heap_parent i) \<le> key (xs ! j)" by (rule order_trans)
      moreover have "ys ! j = xs ! j" using j pj by (simp add: nth)
      moreover have "ys ! heap_parent i = xs ! heap_parent i" using iy pi by (simp add: nth)
      ultimately show "key (ys ! heap_parent i) \<le> key (ys ! j)" by simp
    qed
    then show ?thesis by (simp only: res)
  qed
qed

lemma length_heap_remove:
  assumes "x \<in> set xs"
  shows "length (heap_remove lt xs x) = length xs - 1"
proof -
  have "size (mset (heap_remove lt xs x)) = size (mset xs - {#x#})"
    using assms by (simp only: mset_heap_remove)
  then show ?thesis using assms by (simp add: size_Diff_singleton)
qed

lemma distinct_heap_remove:
  assumes "distinct xs"
  shows "distinct (heap_remove lt xs x) \<and> set (heap_remove lt xs x) = set xs - {x}"
proof (cases "x \<in> set xs")
  case False
  then show ?thesis using assms by (simp add: heap_remove_absent)
next
  case True
  have m: "mset (heap_remove lt xs x) = mset (remove1 x xs)"
    using True by (simp add: mset_heap_remove)
  have d: "distinct (heap_remove lt xs x)"
    using mset_eq_imp_distinct_iff [OF m] assms by simp
  have "set (heap_remove lt xs x) = set (remove1 x xs)"
    using m by (rule mset_eq_setD)
  then show ?thesis using d assms by simp
qed

lemma distinct_heap_insert:
  assumes "distinct xs" "x \<notin> set xs"
  shows "distinct (heap_insert lt xs x) \<and> set (heap_insert lt xs x) = insert x (set xs)"
proof -
  have m: "mset (heap_insert lt xs x) = mset (x # xs)"
    by (simp add: mset_heap_insert)
  have d: "distinct (heap_insert lt xs x)"
    using mset_eq_imp_distinct_iff [OF m] assms by simp
  have "set (heap_insert lt xs x) = set (x # xs)"
    using m by (rule mset_eq_setD)
  then show ?thesis using d by simp
qed

lemma heap_min_Some: "heap_min xs = Some x \<longleftrightarrow> xs \<noteq> [] \<and> x = xs ! 0"
  by (cases xs) (auto simp: heap_min_def)

lemma heap_min_None: "heap_min xs = None \<longleftrightarrow> xs = []"
  by (cases xs) (auto simp: heap_min_def)

lemma heap_min_least:
  fixes key :: "'a \<Rightarrow> 'k::linorder"
  assumes "heap_ok key xs" "heap_min xs = Some x" "y \<in> set xs"
  shows "key x \<le> key y"
proof -
  obtain i where "i < length xs" "xs ! i = y" using assms(3) by (auto simp: in_set_conv_nth)
  then have "key (xs ! 0) \<le> key y" using heap_ok_min [OF assms(1)] by blast
  then show ?thesis using assms(2) by (simp add: heap_min_Some)
qed

lemma extract_n_sorted:
  fixes key :: "'a \<Rightarrow> 'k::linorder"
  assumes "heap_ok key xs" "distinct xs" "inj_on key (set xs)" "length xs = n"
  shows "sorted_wrt (\<lambda>a b. key a < key b) (extract_n n (\<lambda>a b. key a < key b) xs) \<and>
         mset (extract_n n (\<lambda>a b. key a < key b) xs) = mset xs"
  using assms
proof (induction n arbitrary: xs)
  case 0
  then show ?case by simp
next
  case (Suc n)
  let ?lt = "\<lambda>a b. key a < key b"
  from Suc.prems(4) have ne: "xs \<noteq> []" by auto
  define x where "x = xs ! 0"
  have hm: "heap_min xs = Some x" using ne by (simp add: heap_min_Some x_def)
  have xin: "x \<in> set xs" using ne by (simp add: x_def)
  define zs where "zs = heap_remove ?lt xs x"
  have z1: "heap_ok key zs" unfolding zs_def using Suc.prems(1) by (rule heap_remove_heap)
  have z2: "distinct zs" and z3: "set zs = set xs - {x}"
    unfolding zs_def using distinct_heap_remove [OF Suc.prems(2)] by blast+
  have z4: "inj_on key (set zs)" using Suc.prems(3) z3 by (auto intro: inj_on_subset)
  have z5: "length zs = n" unfolding zs_def using xin Suc.prems(4) by (simp add: length_heap_remove)
  have z6: "mset zs = mset xs - {#x#}" unfolding zs_def using xin by (rule mset_heap_remove)
  have ih: "sorted_wrt ?lt (extract_n n ?lt zs) \<and> mset (extract_n n ?lt zs) = mset zs"
    using z1 z2 z4 z5 by (rule Suc.IH)
  have unfold: "extract_n (Suc n) ?lt xs = x # extract_n n ?lt zs"
    using hm by (simp add: zs_def)
  have "set (extract_n n ?lt zs) = set zs" using ih mset_eq_setD by blast
  then have above: "\<forall>y\<in>set (extract_n n ?lt zs). key x < key y"
  proof (intro ballI)
    fix y assume "set (extract_n n ?lt zs) = set zs" "y \<in> set (extract_n n ?lt zs)"
    then have y: "y \<in> set xs" "y \<noteq> x" using z3 by auto
    have "key x \<le> key y" using Suc.prems(1) hm y(1) by (rule heap_min_least)
    moreover have "key x \<noteq> key y" using Suc.prems(3) y xin by (auto dest: inj_onD)
    ultimately show "key x < key y" by (rule order_neq_le_trans [rotated])
  qed
  have "mset (x # extract_n n ?lt zs) = mset xs"
    using ih z6 xin by simp
  then show ?case using above ih unfold by simp
qed

lemma extract_n_sorted_le:
  fixes key :: "'a \<Rightarrow> 'k::linorder"
  assumes "heap_ok key xs" "distinct xs" "length xs = n"
  shows "sorted_wrt (\<lambda>a b. key a \<le> key b) (extract_n n (\<lambda>a b. key a < key b) xs) \<and>
         mset (extract_n n (\<lambda>a b. key a < key b) xs) = mset xs"
  using assms
proof (induction n arbitrary: xs)
  case 0
  then show ?case by simp
next
  case (Suc n)
  let ?lt = "\<lambda>a b. key a < key b"
  from Suc.prems(3) have ne: "xs \<noteq> []" by auto
  define x where "x = xs ! 0"
  have hm: "heap_min xs = Some x" using ne by (simp add: heap_min_Some x_def)
  have xin: "x \<in> set xs" using ne by (simp add: x_def)
  define zs where "zs = heap_remove ?lt xs x"
  have z1: "heap_ok key zs" unfolding zs_def using Suc.prems(1) by (rule heap_remove_heap)
  have z2: "distinct zs" and z3: "set zs = set xs - {x}"
    unfolding zs_def using distinct_heap_remove [OF Suc.prems(2)] by blast+
  have z5: "length zs = n" unfolding zs_def using xin Suc.prems(3) by (simp add: length_heap_remove)
  have z6: "mset zs = mset xs - {#x#}" unfolding zs_def using xin by (rule mset_heap_remove)
  have ih: "sorted_wrt (\<lambda>a b. key a \<le> key b) (extract_n n ?lt zs) \<and>
      mset (extract_n n ?lt zs) = mset zs"
    using z1 z2 z5 by (rule Suc.IH)
  have unfold: "extract_n (Suc n) ?lt xs = x # extract_n n ?lt zs"
    using hm by (simp add: zs_def)
  have "set (extract_n n ?lt zs) = set zs" using ih mset_eq_setD by blast
  then have above: "\<forall>y\<in>set (extract_n n ?lt zs). key x \<le> key y"
  proof (intro ballI)
    fix y assume "set (extract_n n ?lt zs) = set zs" "y \<in> set (extract_n n ?lt zs)"
    then have y: "y \<in> set xs" using z3 by auto
    show "key x \<le> key y" using Suc.prems(1) hm y by (rule heap_min_least)
  qed
  have "mset (x # extract_n n ?lt zs) = mset xs"
    using ih z6 xin by simp
  then show ?case using above ih unfold by simp
qed

lemma timer_less_than_key: "timer_less_than hs = (\<lambda>a b. tkey hs a < tkey hs b)"
  by (auto simp: fun_eq_iff timer_less_than_def tkey_def Let_def)

lemma timer_less_than_cong:
  "(\<And>x. timeout (hs x) = timeout (hs' x) \<and> start_id (hs x) = start_id (hs' x)) \<Longrightarrow>
   timer_less_than hs = timer_less_than hs'"
  by (simp add: fun_eq_iff timer_less_than_def Let_def)

lemma heap_ok_cong:
  fixes key :: "'a \<Rightarrow> 'k::linorder"
  assumes "\<And>x. x \<in> set xs \<Longrightarrow> key x = key' x"
  shows "heap_ok key xs = heap_ok key' xs"
proof -
  have "key (xs ! j) = key' (xs ! j)" if "j < length xs" for j
    using assms that by simp
  moreover have "heap_parent j < length xs" if "j < length xs" "0 < j" for j
    using heap_parent_less [of j] that by simp
  ultimately show ?thesis unfolding heap_ok_def by auto
qed

lemma handles_uv_timer_stop:
  "handles (snd (uv_timer_stop l h)) = (handles l)(h := (handles l h)\<lparr>active := False\<rparr>)"
  by (auto simp: uv_timer_stop_def Let_def set_handle_def uv__is_active_def uv__handle_stop_def
      fun_eq_iff)

lemma timer_heap_uv_timer_stop:
  "timer_heap (snd (uv_timer_stop l h)) =
     (if uv__is_active (handles l h)
      then heap_remove (timer_less_than (handles l)) (timer_heap l) h else timer_heap l)"
  by (simp add: uv_timer_stop_def Let_def set_handle_def)

lemma timer_counter_uv_timer_stop: "timer_counter (snd (uv_timer_stop l h)) = timer_counter l"
  by (simp add: uv_timer_stop_def Let_def set_handle_def)

lemma heap_active_inv_stop:
  assumes "heap_active_inv l"
  shows "heap_active_inv (snd (uv_timer_stop l h))"
proof (cases "uv__is_active (handles l h)")
  case False
  then show ?thesis using assms by (simp add: uv_timer_stop_def)
next
  case True
  have d: "distinct (timer_heap l)" using assms by (simp add: heap_active_inv_def)
  note r = distinct_heap_remove [OF d, of "timer_less_than (handles l)" h]
  show ?thesis
    unfolding heap_active_inv_def
    using assms r True
    by (auto simp: heap_active_inv_def handles_uv_timer_stop timer_heap_uv_timer_stop uv__is_active_def)
qed

lemma not_in_heap_after_stop:
  assumes "heap_active_inv l"
  shows "h \<notin> set (timer_heap (snd (uv_timer_stop l h)))"
proof (cases "uv__is_active (handles l h)")
  case False
  then show ?thesis using assms by (simp add: uv_timer_stop_def heap_active_inv_def)
next
  case True
  have d: "distinct (timer_heap l)" using assms by (simp add: heap_active_inv_def)
  show ?thesis
    using distinct_heap_remove [OF d, of "timer_less_than (handles l)" h] True
    by (simp add: timer_heap_uv_timer_stop)
qed

lemma set_heap_after_stop:
  assumes "heap_active_inv l"
  shows "set (timer_heap (snd (uv_timer_stop l h))) = set (timer_heap l) - {h}"
proof (cases "uv__is_active (handles l h)")
  case False
  then show ?thesis using assms by (auto simp: uv_timer_stop_def heap_active_inv_def)
next
  case True
  have d: "distinct (timer_heap l)" using assms by (simp add: heap_active_inv_def)
  show ?thesis
    using distinct_heap_remove [OF d, of "timer_less_than (handles l)" h] True
    by (simp add: timer_heap_uv_timer_stop)
qed

lemma timer_inv_stop:
  assumes "timer_inv l"
  shows "timer_inv (snd (uv_timer_stop l h))"
proof -
  let ?l' = "snd (uv_timer_stop l h)"
  have a: "heap_active_inv l" using assms by (simp add: timer_inv_def)
  have a': "heap_active_inv ?l'" using a by (rule heap_active_inv_stop)
  have s: "set (timer_heap ?l') = set (timer_heap l) - {h}" using a by (rule set_heap_after_stop)
  have f: "\<forall>x\<in>set (timer_heap ?l').
        timer_cb (handles ?l' x) \<noteq> None \<and> \<not> uv__is_closing (handles ?l' x)"
    using assms s by (simp add: timer_inv_def handles_uv_timer_stop)
  have k: "tkey (handles ?l') = tkey (handles l)"
    by (simp add: fun_eq_iff tkey_def handles_uv_timer_stop)
  have o: "heap_ok (tkey (handles l)) (timer_heap l)" using assms by (simp add: timer_inv_def)
  have h: "heap_ok (tkey (handles ?l')) (timer_heap ?l')"
    unfolding k timer_heap_uv_timer_stop timer_less_than_key
    using o by (simp add: heap_remove_heap)
  show ?thesis unfolding timer_inv_def using a' f h by blast
qed

lemma uv_timer_start_fields:
  assumes "cb \<noteq> None" "\<not> uv__is_closing (handles l h)"
  shows "fst (uv_timer_start l h cb tmo rep) = 0"
    and "time (snd (uv_timer_start l h cb tmo rep)) = time l"
    and "timer_counter (snd (uv_timer_start l h cb tmo rep)) = timer_counter l + 1"
    and "handles (snd (uv_timer_start l h cb tmo rep)) = (handles l)(h := started l h cb tmo rep)"
    and "timer_heap (snd (uv_timer_start l h cb tmo rep)) =
           heap_insert (timer_less_than ((handles l)(h := started l h cb tmo rep)))
             (timer_heap (snd (uv_timer_stop l h))) h"
proof -
  let ?l1 = "if uv__is_active (handles l h) then snd (uv_timer_stop l h) else l"
  have l1: "?l1 = snd (uv_timer_stop l h)" by (simp add: uv_timer_stop_def)
  from assms(1) obtain c where cb: "cb = Some c" by auto
  define v where "v = (handles l h)\<lparr>active := False, timer_cb := cb,
        timeout := (if time l + tmo < tmo then - 1 else time l + tmo),
        repeat := rep, start_id := timer_counter l\<rparr>"
  have lt: "timer_less_than ((handles l)(h := v)) = timer_less_than ((handles l)(h := started l h cb tmo rep))"
    by (rule timer_less_than_cong) (simp add: v_def started_def)
  have eq: "snd (uv_timer_start l h cb tmo rep) =
      (snd (uv_timer_stop l h))\<lparr>handles := (handles l)(h := started l h cb tmo rep),
         timer_counter := timer_counter l + 1,
         timer_heap := heap_insert (timer_less_than ((handles l)(h := v)))
             (timer_heap (snd (uv_timer_stop l h))) h\<rparr>"
    using assms(2) cb
    unfolding uv_timer_start_def l1
    by (simp add: Let_def set_handle_def uv__handle_start_def handles_uv_timer_stop
        timer_counter_uv_timer_stop time_uv_timer_stop started_def v_def)
  show "fst (uv_timer_start l h cb tmo rep) = 0"
    using assms(2) cb by (simp add: uv_timer_start_def Let_def)
  show "time (snd (uv_timer_start l h cb tmo rep)) = time l"
    unfolding eq by (simp add: time_uv_timer_stop)
  show "timer_counter (snd (uv_timer_start l h cb tmo rep)) = timer_counter l + 1"
    unfolding eq by simp
  show "handles (snd (uv_timer_start l h cb tmo rep)) = (handles l)(h := started l h cb tmo rep)"
    unfolding eq by simp
  show "timer_heap (snd (uv_timer_start l h cb tmo rep)) =
           heap_insert (timer_less_than ((handles l)(h := started l h cb tmo rep)))
             (timer_heap (snd (uv_timer_stop l h))) h"
    unfolding eq lt by simp
qed

lemma uv_timer_start_failed:
  "cb = None \<or> uv__is_closing (handles l h) \<Longrightarrow> uv_timer_start l h cb tmo rep = (UV_EINVAL, l)"
  by (auto simp: uv_timer_start_def)

lemma heap_active_inv_start:
  assumes "heap_active_inv l"
  shows "heap_active_inv (snd (uv_timer_start l h cb tmo rep))"
proof (cases "cb = None \<or> uv__is_closing (handles l h)")
  case True
  then show ?thesis using assms by (simp add: uv_timer_start_failed)
next
  case False
  then have ok: "cb \<noteq> None" "\<not> uv__is_closing (handles l h)" by simp_all
  let ?l1 = "snd (uv_timer_stop l h)"
  have a1: "heap_active_inv ?l1" using assms by (rule heap_active_inv_stop)
  have n1: "h \<notin> set (timer_heap ?l1)" using assms by (rule not_in_heap_after_stop)
  have s1: "set (timer_heap ?l1) = set (timer_heap l) - {h}" using assms by (rule set_heap_after_stop)
  have d1: "distinct (timer_heap ?l1)" using a1 by (simp add: heap_active_inv_def)
  note ins = distinct_heap_insert [OF d1 n1,
      of "timer_less_than ((handles l)(h := started l h cb tmo rep))"]
  show ?thesis
    unfolding heap_active_inv_def uv_timer_start_fields(4,5) [OF ok]
    using ins s1 assms
    by (auto simp: heap_active_inv_def uv__is_active_def started_def)
qed

lemma timer_inv_start:
  assumes "timer_inv l"
  shows "timer_inv (snd (uv_timer_start l h cb tmo rep))"
proof (cases "cb = None \<or> uv__is_closing (handles l h)")
  case True
  then show ?thesis using assms by (simp add: uv_timer_start_failed)
next
  case False
  then have ok: "cb \<noteq> None" "\<not> uv__is_closing (handles l h)" by simp_all
  let ?l1 = "snd (uv_timer_stop l h)"
  let ?l' = "snd (uv_timer_start l h cb tmo rep)"
  let ?hs = "(handles l)(h := started l h cb tmo rep)"
  note fl = uv_timer_start_fields [OF ok, of tmo rep]
  have a: "heap_active_inv l" using assms by (simp add: timer_inv_def)
  have a': "heap_active_inv ?l'" using a by (rule heap_active_inv_start)
  have i1: "timer_inv ?l1" using assms by (rule timer_inv_stop)
  have a1: "heap_active_inv ?l1" using a by (rule heap_active_inv_stop)
  have n1: "h \<notin> set (timer_heap ?l1)" using a by (rule not_in_heap_after_stop)
  have s1: "set (timer_heap ?l1) = set (timer_heap l) - {h}" using a by (rule set_heap_after_stop)
  have d1: "distinct (timer_heap ?l1)" using a1 by (simp add: heap_active_inv_def)
  have s': "set (timer_heap ?l') = insert h (set (timer_heap l))"
    unfolding fl(5) using distinct_heap_insert [OF d1 n1] s1 by auto
  have old: "\<forall>x\<in>set (timer_heap l).
        timer_cb (handles l x) \<noteq> None \<and> \<not> uv__is_closing (handles l x)"
    using assms by (simp add: timer_inv_def)
  have f: "\<forall>x\<in>set (timer_heap ?l').
        timer_cb (handles ?l' x) \<noteq> None \<and> \<not> uv__is_closing (handles ?l' x)"
    unfolding s' fl(4) using old ok
    by (auto simp: started_def uv__is_closing_def)
  have o1: "heap_ok (tkey (handles ?l1)) (timer_heap ?l1)" using i1 by (simp add: timer_inv_def)
  have "heap_ok (tkey ?hs) (timer_heap ?l1)"
  proof -
    have "\<And>x. x \<in> set (timer_heap ?l1) \<Longrightarrow> tkey ?hs x = tkey (handles ?l1) x"
      using n1 by (auto simp: tkey_def handles_uv_timer_stop)
    then show ?thesis using o1 heap_ok_cong by blast
  qed
  then have h: "heap_ok (tkey (handles ?l')) (timer_heap ?l')"
    unfolding fl(4,5) timer_less_than_key by (rule heap_insert_heap)
  show ?thesis unfolding timer_inv_def using a' f h by blast
qed

lemma snd_uv_timer_again:
  "snd (uv_timer_again l h) =
     (if timer_cb (handles l h) = None \<or> repeat (handles l h) = 0 then l
      else snd (uv_timer_start (snd (uv_timer_stop l h)) h (timer_cb (handles l h))
                  (repeat (handles l h)) (repeat (handles l h))))"
  by (simp add: uv_timer_again_def Let_def handles_uv_timer_stop)

lemma heap_active_inv_again:
  "heap_active_inv l \<Longrightarrow> heap_active_inv (snd (uv_timer_again l h))"
  by (simp add: snd_uv_timer_again heap_active_inv_start heap_active_inv_stop)

lemma timer_inv_again: "timer_inv l \<Longrightarrow> timer_inv (snd (uv_timer_again l h))"
  by (simp add: snd_uv_timer_again timer_inv_start timer_inv_stop)

lemma heap_active_inv_init:
  assumes "heap_active_inv l" "h \<notin> set (timer_heap l)"
  shows "heap_active_inv (snd (uv_timer_init l h))"
  using assms
  by (auto simp: heap_active_inv_def uv_timer_init_def set_handle_def uv__handle_init_def
      uv__is_active_def)

lemma timer_inv_init:
  assumes "timer_inv l" "h \<notin> set (timer_heap l)"
  shows "timer_inv (snd (uv_timer_init l h))"
proof -
  let ?l' = "snd (uv_timer_init l h)"
  have a: "heap_active_inv ?l'"
    using assms by (simp add: timer_inv_def heap_active_inv_init)
  have hp: "timer_heap ?l' = timer_heap l" "timer_counter ?l' = timer_counter l"
    by (simp_all add: uv_timer_init_def set_handle_def)
  have same: "\<And>x. x \<in> set (timer_heap l) \<Longrightarrow> handles ?l' x = handles l x"
    using assms(2) by (auto simp: uv_timer_init_def set_handle_def)
  have f: "\<forall>x\<in>set (timer_heap ?l').
        timer_cb (handles ?l' x) \<noteq> None \<and> \<not> uv__is_closing (handles ?l' x)"
    using assms(1) same by (simp add: timer_inv_def hp)
  have "heap_ok (tkey (handles l)) (timer_heap l)" using assms(1) by (simp add: timer_inv_def)
  moreover have "\<And>x. x \<in> set (timer_heap l) \<Longrightarrow> tkey (handles ?l') x = tkey (handles l) x"
    using same by (simp add: tkey_def)
  ultimately have h: "heap_ok (tkey (handles ?l')) (timer_heap ?l')"
    unfolding hp using heap_ok_cong by blast
  show ?thesis unfolding timer_inv_def using a f h by blast
qed

lemma heap_active_inv_set_repeat:
  "heap_active_inv l \<Longrightarrow> heap_active_inv (uv_timer_set_repeat l h v)"
  by (auto simp: heap_active_inv_def uv_timer_set_repeat_def set_handle_def uv__is_active_def)

lemma timer_inv_set_repeat:
  assumes "timer_inv l"
  shows "timer_inv (uv_timer_set_repeat l h v)"
proof -
  have k: "tkey (handles (uv_timer_set_repeat l h v)) = tkey (handles l)"
    by (auto simp: fun_eq_iff tkey_def uv_timer_set_repeat_def set_handle_def)
  have s: "\<And>x. start_id (handles (uv_timer_set_repeat l h v) x) = start_id (handles l x)"
    by (auto simp: uv_timer_set_repeat_def set_handle_def)
  have c: "\<And>x. timer_cb (handles (uv_timer_set_repeat l h v) x) = timer_cb (handles l x)"
    "\<And>x. uv__is_closing (handles (uv_timer_set_repeat l h v) x) = uv__is_closing (handles l x)"
    "timer_heap (uv_timer_set_repeat l h v) = timer_heap l"
    "timer_counter (uv_timer_set_repeat l h v) = timer_counter l"
    by (auto simp: uv_timer_set_repeat_def set_handle_def uv__is_closing_def)
  show ?thesis
    using assms heap_active_inv_set_repeat [of l h v] unfolding timer_inv_def k s c
    by blast
qed

lemma heap_active_inv_loop_at: "heap_active_inv (loop_at t)"
  by (simp add: heap_active_inv_def loop_at_def handle_zero_def uv__is_active_def)

lemma timer_inv_loop_at: "timer_inv (loop_at t)"
  by (simp add: timer_inv_def heap_active_inv_loop_at) (simp add: loop_at_def heap_ok_def)

lemma counter_next:
  fixes c :: "64 word"
  assumes "c \<noteq> - 1"
  shows "unat (c + 1) = Suc (unat c)"
proof -
  have m: "unat (- 1 :: 64 word) = 2 ^ 64 - 1"
    by (simp add: unsigned_minus_1_eq_mask mask_eq_exp_minus_1)
  have "unat c \<noteq> unat (- 1 :: 64 word)"
    using assms word_unat_eq_iff [of c "- 1"] by blast
  then have "unat c \<noteq> 2 ^ 64 - 1" unfolding m .
  moreover have "unat c < 2 ^ 64" using unsigned_less [of c] by simp
  ultimately have "unat c + unat (1 :: 64 word) < 2 ^ 64" by simp
  then have "unat (c + 1) = unat c + unat (1 :: 64 word)" using unat_add_lem [of c 1] by simp
  then show ?thesis by simp
qed

lemma counter_less_next:
  fixes c :: "64 word"
  assumes "c \<noteq> - 1"
  shows "c < c + 1"
  using counter_next [OF assms] by (simp add: word_less_nat_alt)

lemma set_heap_after_start:
  assumes "heap_active_inv l" "cb \<noteq> None" "\<not> uv__is_closing (handles l h)"
  shows "set (timer_heap (snd (uv_timer_start l h cb tmo rep))) = insert h (set (timer_heap l))"
proof -
  let ?l1 = "snd (uv_timer_stop l h)"
  have a1: "heap_active_inv ?l1" using assms(1) by (rule heap_active_inv_stop)
  have n1: "h \<notin> set (timer_heap ?l1)" using assms(1) by (rule not_in_heap_after_stop)
  have s1: "set (timer_heap ?l1) = set (timer_heap l) - {h}"
    using assms(1) by (rule set_heap_after_stop)
  have d1: "distinct (timer_heap ?l1)" using a1 by (simp add: heap_active_inv_def)
  show ?thesis
    unfolding uv_timer_start_fields(5) [OF assms(2,3)]
    using distinct_heap_insert [OF d1 n1] s1 by auto
qed

lemma timer_counter_uv_timer_start:
  "timer_counter (snd (uv_timer_start l h cb tmo rep)) =
     (if cb = None \<or> uv__is_closing (handles l h) then timer_counter l else timer_counter l + 1)"
proof (cases "cb = None \<or> uv__is_closing (handles l h)")
  case True
  then show ?thesis by (simp add: uv_timer_start_failed)
next
  case False
  then show ?thesis by (simp add: uv_timer_start_fields(3))
qed

lemma timer_counter_uv_timer_again:
  "timer_counter (snd (uv_timer_again l h)) = timer_counter l \<or>
   timer_counter (snd (uv_timer_again l h)) = timer_counter l + 1"
  by (simp add: snd_uv_timer_again timer_counter_uv_timer_start timer_counter_uv_timer_stop)

lemma start_id_inv_stop:
  assumes "heap_active_inv l" "start_id_inv l"
  shows "start_id_inv (snd (uv_timer_stop l h))"
proof -
  let ?l' = "snd (uv_timer_stop l h)"
  have s: "set (timer_heap ?l') = set (timer_heap l) - {h}"
    using assms(1) by (rule set_heap_after_stop)
  have e: "\<And>x. start_id (handles ?l' x) = start_id (handles l x)"
    by (simp add: handles_uv_timer_stop)
  have "inj_on (\<lambda>x. start_id (handles l x)) (set (timer_heap l) - {h})"
    using assms(2) by (auto simp: start_id_inv_def intro: inj_on_subset)
  then show ?thesis
    using assms(2) unfolding start_id_inv_def e s timer_counter_uv_timer_stop by simp
qed

lemma start_id_inv_start:
  assumes a: "heap_active_inv l" and s: "start_id_inv l" and nw: "timer_counter l \<noteq> - 1"
  shows "start_id_inv (snd (uv_timer_start l h cb tmo rep))"
proof (cases "cb = None \<or> uv__is_closing (handles l h)")
  case True
  then show ?thesis using s by (simp add: uv_timer_start_failed)
next
  case False
  then have ok: "cb \<noteq> None" "\<not> uv__is_closing (handles l h)" by simp_all
  let ?l' = "snd (uv_timer_start l h cb tmo rep)"
  note fl = uv_timer_start_fields [OF ok, of tmo rep]
  have s': "set (timer_heap ?l') = insert h (set (timer_heap l))"
    using a ok by (rule set_heap_after_start)
  have up: "timer_counter l < timer_counter l + 1" using nw by (rule counter_less_next)
  have old: "\<forall>x\<in>set (timer_heap l). start_id (handles l x) < timer_counter l"
    using s by (simp add: start_id_inv_def)
  have f: "\<forall>x\<in>set (timer_heap ?l'). start_id (handles ?l' x) < timer_counter ?l'"
  proof
    fix x assume "x \<in> set (timer_heap ?l')"
    then have x: "x = h \<or> x \<in> set (timer_heap l)" using s' by simp
    show "start_id (handles ?l' x) < timer_counter ?l'"
    proof (cases "x = h")
      case True
      then show ?thesis using up by (simp add: fl(3,4) started_def)
    next
      case False
      then have "start_id (handles l x) < timer_counter l" using x old by blast
      then have "start_id (handles l x) < timer_counter l + 1" using up by (rule less_trans)
      then show ?thesis using False by (simp add: fl(3,4))
    qed
  qed
  have i: "inj_on (\<lambda>x. start_id (handles ?l' x)) (set (timer_heap ?l'))"
  proof (rule inj_onI)
    fix x y
    assume x: "x \<in> set (timer_heap ?l')" and y: "y \<in> set (timer_heap ?l')"
      and e: "start_id (handles ?l' x) = start_id (handles ?l' y)"
    have oi: "inj_on (\<lambda>x. start_id (handles l x)) (set (timer_heap l))"
      using s by (simp add: start_id_inv_def)
    show "x = y"
    proof (cases "x = h")
      case True
      show ?thesis
      proof (cases "y = h")
        case True
        then show ?thesis using \<open>x = h\<close> by simp
      next
        case False
        then have "y \<in> set (timer_heap l)" using y s' by simp
        then have "start_id (handles l y) < timer_counter l" using old by simp
        then show ?thesis using e True False by (simp add: fl(4) started_def)
      qed
    next
      case xh: False
      then have xin: "x \<in> set (timer_heap l)" using x s' by simp
      show ?thesis
      proof (cases "y = h")
        case True
        have "start_id (handles l x) < timer_counter l" using old xin by simp
        then show ?thesis using e True xh by (simp add: fl(4) started_def)
      next
        case False
        then have "y \<in> set (timer_heap l)" using y s' by simp
        moreover have "start_id (handles l x) = start_id (handles l y)"
          using e xh False by (simp add: fl(4))
        ultimately show ?thesis using oi xin by (auto dest: inj_onD)
      qed
    qed
  qed
  show ?thesis unfolding start_id_inv_def using f i by blast
qed

lemma start_id_inv_again:
  assumes "heap_active_inv l" "start_id_inv l" "timer_counter l \<noteq> - 1"
  shows "start_id_inv (snd (uv_timer_again l h))"
proof -
  have "start_id_inv (snd (uv_timer_start (snd (uv_timer_stop l h)) h cb tmo rep))" for cb tmo rep
  proof (rule start_id_inv_start)
    show "heap_active_inv (snd (uv_timer_stop l h))" using assms(1) by (rule heap_active_inv_stop)
    show "start_id_inv (snd (uv_timer_stop l h))" using assms(1,2) by (rule start_id_inv_stop)
    show "timer_counter (snd (uv_timer_stop l h)) \<noteq> - 1"
      using assms(3) by (simp add: timer_counter_uv_timer_stop)
  qed
  then show ?thesis using assms(2) by (simp add: snd_uv_timer_again)
qed

lemma start_id_inv_loop_at: "start_id_inv (loop_at t)"
  by (simp add: start_id_inv_def loop_at_def)

lemma start_id_inv_time: "start_id_inv (l\<lparr>time := t\<rparr>) = start_id_inv l"
  by (simp add: start_id_inv_def)

lemma rearmed_later:
  assumes "time l \<noteq> - 1" "repeat (handles l h) \<noteq> 0"
  shows "time l < rearmed l h"
proof -
  have u: "unat (rearmed l h) = min (unat (time l) + unat (repeat (handles l h))) (2 ^ 64 - 1)"
    unfolding rearmed_def by (rule clamp_unat)
  have m: "unat (- 1 :: 64 word) = 2 ^ 64 - 1"
    by (simp add: unsigned_minus_1_eq_mask mask_eq_exp_minus_1)
  have "unat (time l) \<noteq> unat (- 1 :: 64 word)"
    using assms(1) word_unat_eq_iff [of "time l" "- 1"] by blast
  then have "unat (time l) \<noteq> 2 ^ 64 - 1" unfolding m .
  moreover have "unat (time l) < 2 ^ 64" using unsigned_less [of "time l"] by simp
  ultimately have a: "unat (time l) < 2 ^ 64 - 1" by simp
  have "unat (repeat (handles l h)) \<noteq> 0" using assms(2) by (simp add: unat_eq_0)
  then have "unat (time l) < unat (rearmed l h)" using a u by simp
  then show ?thesis by (simp add: word_less_nat_alt)
qed

lemma fire_step:
  assumes inv: "timer_inv l"
    and hm: "heap_min (timer_heap l) = Some x"
  defines "l2 \<equiv> snd (uv_timer_again (snd (uv_timer_stop l x)) x)"
  shows "timer_inv l2"
    and "time l2 = time l"
    and "timer_cb (handles l2 x) = timer_cb (handles l x)"
    and "timer_cb (handles l x) \<noteq> None"
    and "repeat (handles l2 x) = repeat (handles l x)"
    and "\<And>h. h \<noteq> x \<Longrightarrow> handles l2 h = handles l h"
    and "set (timer_heap l2) = (if repeat (handles l x) = 0 then set (timer_heap l) - {x}
                                 else set (timer_heap l))"
    and "timeout (handles l2 x) = (if repeat (handles l x) = 0 then timeout (handles l x)
                                    else rearmed l x)"
    and "uv__is_active (handles l2 x) = (repeat (handles l x) \<noteq> 0)"
    and "x \<in> set (timer_heap l)"
proof -
  let ?l1 = "snd (uv_timer_stop l x)"
  have xin: "x \<in> set (timer_heap l)" using hm by (auto simp: heap_min_Some)
  have a: "heap_active_inv l" using inv by (simp add: timer_inv_def)
  have xprops: "timer_cb (handles l x) \<noteq> None" "\<not> uv__is_closing (handles l x)"
    using inv xin by (simp_all add: timer_inv_def)
  have i1: "timer_inv ?l1" using inv by (rule timer_inv_stop)
  have a1: "heap_active_inv ?l1" using a by (rule heap_active_inv_stop)
  have h1: "handles ?l1 = (handles l)(x := (handles l x)\<lparr>active := False\<rparr>)"
    by (rule handles_uv_timer_stop)
  have s1: "set (timer_heap ?l1) = set (timer_heap l) - {x}" using a by (rule set_heap_after_stop)
  have t1: "time ?l1 = time l" by (rule time_uv_timer_stop)
  have na: "\<not> uv__is_active (handles ?l1 x)" by (simp add: h1 uv__is_active_def)
  have st: "snd (uv_timer_stop ?l1 x) = ?l1" using na by (simp add: uv_timer_stop_def)
  have d1: "distinct (timer_heap ?l1)" using a1 by (simp add: heap_active_inv_def)
  have n1: "x \<notin> set (timer_heap ?l1)" using s1 by simp
  show "x \<in> set (timer_heap l)" by (rule xin)
  show "timer_cb (handles l x) \<noteq> None" by (rule xprops(1))
  show "timer_inv l2" unfolding l2_def using i1 by (rule timer_inv_again)
  have all: "time l2 = time l \<and> timer_cb (handles l2 x) = timer_cb (handles l x) \<and>
      repeat (handles l2 x) = repeat (handles l x) \<and>
      (\<forall>h. h \<noteq> x \<longrightarrow> handles l2 h = handles l h) \<and>
      set (timer_heap l2) = (if repeat (handles l x) = 0 then set (timer_heap l) - {x}
                                 else set (timer_heap l)) \<and>
      timeout (handles l2 x) = (if repeat (handles l x) = 0 then timeout (handles l x)
                                    else rearmed l x) \<and>
      uv__is_active (handles l2 x) = (repeat (handles l x) \<noteq> 0)"
  proof (cases "repeat (handles l x) = 0")
    case True
    then have "l2 = ?l1" unfolding l2_def by (simp add: snd_uv_timer_again h1)
    then show ?thesis
      using True t1 s1 by (simp add: h1 uv__is_active_def)
  next
    case False
    let ?cb = "timer_cb (handles l x)" and ?r = "repeat (handles l x)"
    have e: "l2 = snd (uv_timer_start ?l1 x ?cb ?r ?r)"
      unfolding l2_def using False xprops(1) by (auto simp: snd_uv_timer_again h1 st)
    have c1: "?cb \<noteq> None" "\<not> uv__is_closing (handles ?l1 x)"
      using xprops by (simp_all add: h1 uv__is_closing_def)
    note fl = uv_timer_start_fields [OF c1, of ?r ?r]
    have hs: "set (timer_heap l2) = set (timer_heap l)"
      unfolding e fl(5) st using distinct_heap_insert [OF d1 n1] s1 xin by auto
    show ?thesis
      using False hs unfolding e fl(2,4)
      by (simp add: t1 h1 started_def rearmed_def uv__is_active_def)
  qed
  show "time l2 = time l" using all by blast
  show "timer_cb (handles l2 x) = timer_cb (handles l x)" using all by blast
  show "repeat (handles l2 x) = repeat (handles l x)" using all by blast
  show "\<And>h. h \<noteq> x \<Longrightarrow> handles l2 h = handles l h" using all by blast
  show "set (timer_heap l2) = (if repeat (handles l x) = 0 then set (timer_heap l) - {x}
                                 else set (timer_heap l))" using all by blast
  show "timeout (handles l2 x) = (if repeat (handles l x) = 0 then timeout (handles l x)
                                    else rearmed l x)" using all by blast
  show "uv__is_active (handles l2 x) = (repeat (handles l x) \<noteq> 0)" using all by blast
qed

lemma cb_inert_keeps: "cb_inert cbs \<Longrightarrow> cb_keeps_timers cbs"
proof -
  assume i: "cb_inert cbs"
  have "\<exists>r. handles l h = (handles l h)\<lparr>repeat := r\<rparr>" for l :: uv_loop_t and h
    by (rule exI [of _ "repeat (handles l h)"]) simp
  then show ?thesis using i by (simp add: cb_keeps_timers_def cb_inert_def)
qed

lemma keeps_fields:
  assumes "cb_keeps_timers cbs"
  shows "time (cbs c x l) = time l" "timer_counter (cbs c x l) = timer_counter l"
    "timer_heap (cbs c x l) = timer_heap l"
    "timeout (handles (cbs c x l) h) = timeout (handles l h)"
    "start_id (handles (cbs c x l) h) = start_id (handles l h)"
    "timer_cb (handles (cbs c x l) h) = timer_cb (handles l h)"
    "uv__is_active (handles (cbs c x l) h) = uv__is_active (handles l h)"
    "uv__is_closing (handles (cbs c x l) h) = uv__is_closing (handles l h)"
proof -
  obtain r where r: "handles (cbs c x l) h = (handles l h)\<lparr>repeat := r\<rparr>"
    using assms unfolding cb_keeps_timers_def by blast
  show "time (cbs c x l) = time l" "timer_counter (cbs c x l) = timer_counter l"
    "timer_heap (cbs c x l) = timer_heap l"
    using assms unfolding cb_keeps_timers_def by blast+
  show "timeout (handles (cbs c x l) h) = timeout (handles l h)"
    "start_id (handles (cbs c x l) h) = start_id (handles l h)"
    "timer_cb (handles (cbs c x l) h) = timer_cb (handles l h)"
    "uv__is_active (handles (cbs c x l) h) = uv__is_active (handles l h)"
    "uv__is_closing (handles (cbs c x l) h) = uv__is_closing (handles l h)"
    unfolding r by (simp_all add: uv__is_active_def uv__is_closing_def)
qed

lemma keeps_timer_inv:
  assumes "cb_keeps_timers cbs" "timer_inv l"
  shows "timer_inv (cbs c x l)"
proof -
  note f = keeps_fields [OF assms(1), of c x l]
  have k: "tkey (handles (cbs c x l)) = tkey (handles l)"
    by (simp add: fun_eq_iff tkey_def f)
  show ?thesis
    using assms(2) unfolding timer_inv_def heap_active_inv_def k f by blast
qed

lemma keeps_start_id_inv:
  assumes "cb_keeps_timers cbs" "start_id_inv l"
  shows "start_id_inv (cbs c x l)"
  using assms(2) unfolding start_id_inv_def keeps_fields [OF assms(1)] by blast

lemma keeps_heap_active_inv:
  assumes "cb_keeps_timers cbs" "heap_active_inv l"
  shows "heap_active_inv (cbs c x l)"
  using assms(2) unfolding heap_active_inv_def keeps_fields [OF assms(1)] by blast

lemma keeps_due:
  assumes "cb_keeps_timers cbs"
  shows "due (cbs c x l) = due l"
  unfolding due_def keeps_fields [OF assms] by (rule refl)

lemma run_end_empty:
  "timer_heap l = [] \<Longrightarrow> run_timers_from cbs l fired = Some (Inr (fired, l))"
  by (subst run_timers_from.simps) (simp add: heap_min_def)

lemma run_end_not_due:
  "heap_min (timer_heap l) = Some x \<Longrightarrow> time l < timeout (handles l x) \<Longrightarrow>
   run_timers_from cbs l fired = Some (Inr (fired, l))"
  by (subst run_timers_from.simps) simp

lemma run_fire:
  "heap_min (timer_heap l) = Some x \<Longrightarrow> timeout (handles l x) \<le> time l \<Longrightarrow>
   timer_cb (handles (snd (uv_timer_again (snd (uv_timer_stop l x)) x)) x) = Some c \<Longrightarrow>
   run_timers_from cbs l fired =
     run_timers_from cbs (cbs c x (snd (uv_timer_again (snd (uv_timer_stop l x)) x))) (fired @ [x])"
  by (subst run_timers_from.simps) (simp add: Let_def not_less [symmetric])

lemma run_fire_null:
  "heap_min (timer_heap l) = Some x \<Longrightarrow> timeout (handles l x) \<le> time l \<Longrightarrow>
   timer_cb (handles (snd (uv_timer_again (snd (uv_timer_stop l x)) x)) x) = None \<Longrightarrow>
   run_timers_from cbs l fired = Some (Inl NullCallback)"
  by (subst run_timers_from.simps) (simp add: Let_def not_less [symmetric])

lemma finite_due: "finite (due l)"
  by (simp add: due_def)

lemma due_empty_not_due:
  assumes "timer_inv l" "heap_min (timer_heap l) = Some x" "time l < timeout (handles l x)"
  shows "due l = {}"
proof -
  have ok: "heap_ok (tkey (handles l)) (timer_heap l)" using assms(1) by (simp add: timer_inv_def)
  have "time l < timeout (handles l y)" if "y \<in> set (timer_heap l)" for y
  proof -
    have "tkey (handles l) x \<le> tkey (handles l) y"
      using ok assms(2) that by (rule heap_min_least)
    then have "timeout (handles l x) \<le> timeout (handles l y)"
      by (auto simp: tkey_def less_eq_prod_def)
    then show ?thesis using assms(3) by simp
  qed
  then show ?thesis by (auto simp: due_def not_le [symmetric] simp del: not_le)
qed

lemma due_after_fire:
  assumes inv: "timer_inv l" and hm: "heap_min (timer_heap l) = Some x"
    and nm: "time l \<noteq> - 1"
  shows "due (snd (uv_timer_again (snd (uv_timer_stop l x)) x)) = due l - {x}"
proof -
  let ?l2 = "snd (uv_timer_again (snd (uv_timer_stop l x)) x)"
  note fs = fire_step [OF inv hm]
  have later: "repeat (handles l x) \<noteq> 0 \<Longrightarrow> \<not> timeout (handles ?l2 x) \<le> time ?l2"
    using rearmed_later [OF nm, of x] by (simp add: fs(2,8) not_le)
  show ?thesis
  proof (rule set_eqI)
    fix h
    show "h \<in> due ?l2 \<longleftrightarrow> h \<in> due l - {x}"
    proof (cases "h = x")
      case True
      then show ?thesis using later by (auto simp: due_def fs(7))
    next
      case False
      then show ?thesis by (auto simp: due_def fs(2,6,7))
    qed
  qed
qed

lemma run_timers_total:
  assumes "cb_keeps_timers cbs" "time l \<noteq> - 1" "timer_inv l"
  shows "\<exists>tr l'. run_timers_from cbs l fired = Some (Inr (fired @ tr, l')) \<and>
           distinct tr \<and> set tr = due l \<and> timer_inv l' \<and> time l' = time l \<and> due l' = {} \<and>
           (start_id_inv l \<and> unat (timer_counter l) + card (due l) < 2 ^ 64 \<longrightarrow>
              start_id_inv l') \<and>
           (cb_inert cbs \<longrightarrow>
              (\<forall>h. repeat (handles l' h) = repeat (handles l h) \<and>
                   timer_cb (handles l' h) = timer_cb (handles l h) \<and>
                   (h \<notin> due l \<longrightarrow> handles l' h = handles l h) \<and>
                   (h \<in> due l \<longrightarrow>
                      timeout (handles l' h) =
                        (if repeat (handles l h) = 0 then timeout (handles l h) else rearmed l h) \<and>
                      uv__is_active (handles l' h) = (repeat (handles l h) \<noteq> 0))))"
  using assms(2,3)
proof (induction "card (due l)" arbitrary: l fired rule: less_induct)
  case less
  note nm = less.prems(1) and inv = less.prems(2)
  show ?case
  proof (cases "heap_min (timer_heap l)")
    case None
    then have e: "timer_heap l = []" by (simp add: heap_min_None)
    then have "run_timers_from cbs l fired = Some (Inr (fired @ [], l))"
      by (simp add: run_end_empty)
    moreover have "due l = {}" using e by (simp add: due_def)
    ultimately show ?thesis using inv by (intro exI [of _ "[]"] exI [of _ l]) simp
  next
    case (Some x)
    show ?thesis
    proof (cases "time l < timeout (handles l x)")
      case True
      have "run_timers_from cbs l fired = Some (Inr (fired @ [], l))"
        using Some True by (simp add: run_end_not_due)
      moreover have "due l = {}" using inv Some True by (rule due_empty_not_due)
      ultimately show ?thesis using inv by (intro exI [of _ "[]"] exI [of _ l]) simp
    next
      case False
      then have d: "timeout (handles l x) \<le> time l" by simp
      let ?l2 = "snd (uv_timer_again (snd (uv_timer_stop l x)) x)"
      note fs = fire_step [OF inv Some]
      obtain c where c: "timer_cb (handles ?l2 x) = Some c"
        using fs(3,4) by (cases "timer_cb (handles ?l2 x)") auto
      let ?l3 = "cbs c x ?l2"
      have xd: "x \<in> due l" using fs(10) d by (simp add: due_def)
      have d2: "due ?l2 = due l - {x}" using inv Some nm by (rule due_after_fire)
      have d3: "due ?l3 = due l - {x}" using keeps_due [OF assms(1)] d2 by simp
      have t3: "time ?l3 = time l" using keeps_fields(1) [OF assms(1)] fs(2) by simp
      have i3: "timer_inv ?l3" using assms(1) fs(1) by (rule keeps_timer_inv)
      have "card (due ?l3) < card (due l)"
        unfolding d3 using xd finite_due [of l] by (rule card_Diff1_less [rotated])
      moreover have "time ?l3 \<noteq> - 1" using t3 nm by simp
      ultimately obtain tr l' where r:
        "run_timers_from cbs ?l3 (fired @ [x]) = Some (Inr ((fired @ [x]) @ tr, l'))"
        "distinct tr" "set tr = due ?l3" "timer_inv l'" "time l' = time ?l3" "due l' = {}"
        "start_id_inv ?l3 \<and> unat (timer_counter ?l3) + card (due ?l3) < 2 ^ 64 \<longrightarrow>
           start_id_inv l'"
        "cb_inert cbs \<longrightarrow>
              (\<forall>h. repeat (handles l' h) = repeat (handles ?l3 h) \<and>
                   timer_cb (handles l' h) = timer_cb (handles ?l3 h) \<and>
                   (h \<notin> due ?l3 \<longrightarrow> handles l' h = handles ?l3 h) \<and>
                   (h \<in> due ?l3 \<longrightarrow>
                      timeout (handles l' h) =
                        (if repeat (handles ?l3 h) = 0 then timeout (handles ?l3 h)
                         else rearmed ?l3 h) \<and>
                      uv__is_active (handles l' h) = (repeat (handles ?l3 h) \<noteq> 0)))"
        using less.hyps [of ?l3 "fired @ [x]"] i3 by blast
      have run: "run_timers_from cbs l fired = Some (Inr (fired @ (x # tr), l'))"
        using run_fire [OF Some d c, of cbs fired] r(1) by simp
      have dist: "distinct (x # tr)" using r(2,3) d3 by simp
      have st: "set (x # tr) = due l" using r(3) d3 xd by auto
      have tm: "time l' = time l" using r(5) t3 by simp
      have fin: "cb_inert cbs \<longrightarrow>
              (\<forall>h. repeat (handles l' h) = repeat (handles l h) \<and>
                   timer_cb (handles l' h) = timer_cb (handles l h) \<and>
                   (h \<notin> due l \<longrightarrow> handles l' h = handles l h) \<and>
                   (h \<in> due l \<longrightarrow>
                      timeout (handles l' h) =
                        (if repeat (handles l h) = 0 then timeout (handles l h) else rearmed l h) \<and>
                      uv__is_active (handles l' h) = (repeat (handles l h) \<noteq> 0)))"
      proof (intro impI allI)
        fix h
        assume inert: "cb_inert cbs"
        then have e3: "?l3 = ?l2" by (simp add: cb_inert_def)
        note ih = r(8) [rule_format, OF inert, of h, unfolded e3]
        have dd: "due ?l2 = due l - {x}" by (rule d2)
        show "repeat (handles l' h) = repeat (handles l h) \<and>
                   timer_cb (handles l' h) = timer_cb (handles l h) \<and>
                   (h \<notin> due l \<longrightarrow> handles l' h = handles l h) \<and>
                   (h \<in> due l \<longrightarrow>
                      timeout (handles l' h) =
                        (if repeat (handles l h) = 0 then timeout (handles l h) else rearmed l h) \<and>
                      uv__is_active (handles l' h) = (repeat (handles l h) \<noteq> 0))"
        proof (cases "h = x")
          case True
          then have "h \<notin> due ?l2" using dd by simp
          then have "handles l' h = handles ?l2 h" using ih by blast
          then show ?thesis using True xd fs(3,5,8,9) by simp
        next
          case False
          then have same: "handles ?l2 h = handles l h" by (rule fs(6))
          have "rearmed ?l2 h = rearmed l h" by (simp add: rearmed_def same fs(2))
          then show ?thesis using ih False same dd by auto
        qed
      qed
      have ids: "start_id_inv l \<and> unat (timer_counter l) + card (due l) < 2 ^ 64 \<longrightarrow>
          start_id_inv l'"
      proof
        assume h: "start_id_inv l \<and> unat (timer_counter l) + card (due l) < 2 ^ 64"
        then have si: "start_id_inv l" and bd: "unat (timer_counter l) + card (due l) < 2 ^ 64"
          by blast+
        have cpos: "0 < card (due l)" using xd finite_due [of l] by (auto simp: card_gt_0_iff)
        have m: "unat (- 1 :: 64 word) = 2 ^ 64 - 1"
          by (simp add: unsigned_minus_1_eq_mask mask_eq_exp_minus_1)
        have nw: "timer_counter l \<noteq> - 1"
        proof
          assume "timer_counter l = - 1"
          then have "unat (timer_counter l) = 2 ^ 64 - 1" using m by simp
          then show False using bd cpos by simp
        qed
        let ?l1 = "snd (uv_timer_stop l x)"
        have ai: "heap_active_inv l" using inv by (simp add: timer_inv_def)
        have s1: "start_id_inv ?l1" using ai si by (rule start_id_inv_stop)
        have a1: "heap_active_inv ?l1" using ai by (rule heap_active_inv_stop)
        have nw1: "timer_counter ?l1 \<noteq> - 1" using nw by (simp add: timer_counter_uv_timer_stop)
        have s2: "start_id_inv ?l2" using a1 s1 nw1 by (rule start_id_inv_again)
        have s3: "start_id_inv ?l3" using assms(1) s2 by (rule keeps_start_id_inv)
        have c3: "timer_counter ?l3 = timer_counter ?l2" by (rule keeps_fields(2) [OF assms(1)])
        have c2: "unat (timer_counter ?l2) \<le> Suc (unat (timer_counter l))"
          using timer_counter_uv_timer_again [of ?l1 x] counter_next [OF nw]
          by (auto simp: timer_counter_uv_timer_stop)
        have "card (due ?l3) = card (due l) - 1"
          unfolding d3 using xd by (simp add: card_Diff_singleton)
        then have "unat (timer_counter ?l3) + card (due ?l3) < 2 ^ 64"
          using bd cpos c2 unfolding c3 by linarith
        then show "start_id_inv l'" using r(7) s3 by blast
      qed
      show ?thesis
        using run dist st r(4) tm r(6) ids fin
        by (intro exI [of _ "x # tr"] exI [of _ l']) blast
    qed
  qed
qed

lemma run_preserves_aux:
  assumes stopQ: "\<And>s x. Q s \<Longrightarrow> Q (snd (uv_timer_stop s x))"
    and againQ: "\<And>s x. Q s \<Longrightarrow> Q (snd (uv_timer_again s x))"
  shows "run_timers_from cbs l fired = Some r \<Longrightarrow>
         (\<forall>c x s. Q s \<longrightarrow> Q (cbs c x s)) \<longrightarrow> Q l \<longrightarrow> (\<forall>tr l'. r = Inr (tr, l') \<longrightarrow> Q l')"
proof (induct rule: run_timers_from.raw_induct [rotated 1, consumes 1])
  case (1 f cbs l fired r)
  show ?case
  proof (intro impI allI)
    fix tr l'
    assume cbQ: "\<forall>c x s. Q s \<longrightarrow> Q (cbs c x s)" and q: "Q l" and r: "r = Inr (tr, l')"
    show "Q l'"
    proof (cases "heap_min (timer_heap l)")
      case None
      then show ?thesis using 1(2) q r by simp
    next
      case (Some x)
      show ?thesis
      proof (cases "time l < timeout (handles l x)")
        case True
        then show ?thesis using 1(2) q r Some by simp
      next
        case False
        let ?l2 = "snd (uv_timer_again (snd (uv_timer_stop l x)) x)"
        have q2: "Q ?l2" using q by (intro againQ stopQ)
        show ?thesis
        proof (cases "timer_cb (handles ?l2 x)")
          case None
          then show ?thesis using 1(2) r Some False by (simp add: Let_def)
        next
          case (Some c)
          then have "f cbs (cbs c x ?l2) (fired @ [x]) = Some r"
            using 1(2) \<open>heap_min (timer_heap l) = Some x\<close> False by (simp add: Let_def)
          moreover have "Q (cbs c x ?l2)" using cbQ q2 by blast
          ultimately show ?thesis using 1(1) cbQ r by blast
        qed
      qed
    qed
  qed
qed

lemma run_preserves:
  assumes "run_timers_from cbs l fired = Some (Inr (tr, l'))" "Q l"
    and "\<And>s x. Q s \<Longrightarrow> Q (snd (uv_timer_stop s x))"
    and "\<And>s x. Q s \<Longrightarrow> Q (snd (uv_timer_again s x))"
    and "\<And>c x s. Q s \<Longrightarrow> Q (cbs c x s)"
  shows "Q l'"
proof -
  note aux = run_preserves_aux [where Q = Q and cbs = cbs and l = l and fired = fired
      and r = "Inr (tr, l')"]
  have "(\<forall>c x s. Q s \<longrightarrow> Q (cbs c x s)) \<longrightarrow> Q l \<longrightarrow>
      (\<forall>tr' l''. Inr (tr, l') = Inr (tr', l'') \<longrightarrow> Q l'')"
    using aux [OF assms(3) assms(4) assms(1)] by blast
  moreover have "\<forall>c x s. Q s \<longrightarrow> Q (cbs c x s)" using assms(5) by blast
  ultimately have "\<forall>tr' l''. Inr (tr, l') = Inr (tr', l'') \<longrightarrow> Q l''" using assms(2) by blast
  then show ?thesis by blast
qed

lemma run_trace_extends:
  "run_timers_from cbs l fired = Some r \<Longrightarrow> (\<forall>tr l'. r = Inr (tr, l') \<longrightarrow> (\<exists>rest. tr = fired @ rest))"
proof (induct rule: run_timers_from.raw_induct [rotated 1, consumes 1])
  case (1 f cbs l fired r)
  show ?case
  proof (intro impI allI)
    fix tr l'
    assume r: "r = Inr (tr, l')"
    show "\<exists>rest. tr = fired @ rest"
    proof (cases "heap_min (timer_heap l)")
      case None
      then show ?thesis using 1(2) r by simp
    next
      case (Some x)
      show ?thesis
      proof (cases "time l < timeout (handles l x)")
        case True
        then show ?thesis using 1(2) r Some by simp
      next
        case False
        let ?l2 = "snd (uv_timer_again (snd (uv_timer_stop l x)) x)"
        show ?thesis
        proof (cases "timer_cb (handles ?l2 x)")
          case None
          then show ?thesis using 1(2) r Some False by (simp add: Let_def)
        next
          case (Some c)
          then have "f cbs (cbs c x ?l2) (fired @ [x]) = Some r"
            using 1(2) \<open>heap_min (timer_heap l) = Some x\<close> False by (simp add: Let_def)
          then obtain rest where "tr = (fired @ [x]) @ rest" using 1(1) r by blast
          then show ?thesis by simp
        qed
      qed
    qed
  qed
qed

lemma run_fired_nonempty:
  assumes "heap_min (timer_heap l) = Some x" "timeout (handles l x) \<le> time l"
  shows "run_timers_from cbs l fired \<noteq> Some (Inr (fired, l'))"
proof
  assume e: "run_timers_from cbs l fired = Some (Inr (fired, l'))"
  let ?l2 = "snd (uv_timer_again (snd (uv_timer_stop l x)) x)"
  show False
  proof (cases "timer_cb (handles ?l2 x)")
    case None
    then show ?thesis using e run_fire_null [OF assms None, of cbs fired] by simp
  next
    case (Some c)
    then have "run_timers_from cbs (cbs c x ?l2) (fired @ [x]) = Some (Inr (fired, l'))"
      using e run_fire [OF assms Some, of cbs fired] by simp
    then obtain rest where "fired = (fired @ [x]) @ rest" using run_trace_extends by blast
    then show ?thesis by simp
  qed
qed

lemma run_diverges:
  "run_timers_from cbs l fired = Some r \<Longrightarrow>
   \<not> (cb_inert cbs \<and> timer_inv l \<and> time l = - 1 \<and> timer_heap l \<noteq> [] \<and>
      (\<forall>h\<in>set (timer_heap l). repeat (handles l h) \<noteq> 0))"
proof (induct rule: run_timers_from.raw_induct [rotated 1, consumes 1])
  case (1 f cbs l fired r)
  show ?case
  proof
    assume a: "cb_inert cbs \<and> timer_inv l \<and> time l = - 1 \<and> timer_heap l \<noteq> [] \<and>
      (\<forall>h\<in>set (timer_heap l). repeat (handles l h) \<noteq> 0)"
    then obtain x where x: "heap_min (timer_heap l) = Some x"
      by (cases "timer_heap l") (auto simp: heap_min_def)
    have due: "\<not> time l < timeout (handles l x)" using a by (simp add: not_less)
    let ?l2 = "snd (uv_timer_again (snd (uv_timer_stop l x)) x)"
    have inv: "timer_inv l" using a by blast
    note fs = fire_step [OF inv x]
    obtain c where c: "timer_cb (handles ?l2 x) = Some c"
      using fs(3,4) by (cases "timer_cb (handles ?l2 x)") auto
    have k: "cb_inert cbs" using a by blast
    then have e3: "cbs c x ?l2 = ?l2" by (simp add: cb_inert_def)
    have rx: "repeat (handles l x) \<noteq> 0" using a fs(10) by blast
    have step: "f cbs ?l2 (fired @ [x]) = Some r"
      using 1(2) x due c e3 by (simp add: Let_def)
    have s2: "set (timer_heap ?l2) = set (timer_heap l)" using fs(7) rx by simp
    have "time ?l2 = - 1" using fs(2) a by simp
    moreover have "timer_heap ?l2 \<noteq> []" using s2 a by (metis set_empty)
    moreover have "\<forall>h\<in>set (timer_heap ?l2). repeat (handles ?l2 h) \<noteq> 0"
    proof
      fix h assume "h \<in> set (timer_heap ?l2)"
      then have "repeat (handles l h) \<noteq> 0" using s2 a by blast
      then show "repeat (handles ?l2 h) \<noteq> 0"
        using fs(5) fs(6) [of h] by (cases "h = x") simp_all
    qed
    ultimately show False using 1(1) [OF step] k fs(1) by blast
  qed
qed

lemma cb_inert_noop: "cb_inert cb_noop"
  by (simp add: cb_inert_def cb_noop_def)

lemma time_uv_timer_start: "time (snd (uv_timer_start l h cb tmo rep)) = time l"
proof (cases "cb = None \<or> uv__is_closing (handles l h)")
  case True
  then show ?thesis by (simp add: uv_timer_start_failed)
next
  case False
  then show ?thesis by (simp add: uv_timer_start_fields(2))
qed

lemma time_uv_timer_again: "time (snd (uv_timer_again l h)) = time l"
  by (simp add: snd_uv_timer_again time_uv_timer_start time_uv_timer_stop)

lemma heap_min_not_less:
  assumes inv: "timer_inv l" and hm: "heap_min (timer_heap l) = Some x"
    and y: "y \<in> set (timer_heap l)"
  shows "\<not> timer_less_than (handles l) y x"
proof -
  have ok: "heap_ok (tkey (handles l)) (timer_heap l)" using inv by (simp add: timer_inv_def)
  have "tkey (handles l) x \<le> tkey (handles l) y" using ok hm y by (rule heap_min_least)
  then show ?thesis by (simp add: timer_less_than_key not_less)
qed

lemma heap_min_strict:
  assumes inv: "timer_inv l" and ids: "start_id_inv l"
    and hm: "heap_min (timer_heap l) = Some x"
    and y: "y \<in> set (timer_heap l)" "y \<noteq> x"
  shows "timer_less_than (handles l) x y"
proof -
  have ok: "heap_ok (tkey (handles l)) (timer_heap l)" using inv by (simp add: timer_inv_def)
  have le: "tkey (handles l) x \<le> tkey (handles l) y" using ok hm y(1) by (rule heap_min_least)
  have xin: "x \<in> set (timer_heap l)" using hm by (auto simp: heap_min_Some)
  have "inj_on (\<lambda>h. start_id (handles l h)) (set (timer_heap l))"
    using ids by (simp add: start_id_inv_def)
  then have "start_id (handles l x) \<noteq> start_id (handles l y)"
    using xin y by (auto dest: inj_onD)
  then have "tkey (handles l) x \<noteq> tkey (handles l) y" by (simp add: tkey_def)
  then have "tkey (handles l) x < tkey (handles l) y" using le by simp
  then show ?thesis by (simp add: timer_less_than_key)
qed

lemma run_ends_iff:
  "(\<exists>l'. run_timers_from cbs l fired = Some (Inr (fired, l'))) \<longleftrightarrow>
     (timer_heap l = [] \<or>
      (\<exists>x. heap_min (timer_heap l) = Some x \<and> time l < timeout (handles l x)))"
proof
  assume "timer_heap l = [] \<or>
      (\<exists>x. heap_min (timer_heap l) = Some x \<and> time l < timeout (handles l x))"
  then show "\<exists>l'. run_timers_from cbs l fired = Some (Inr (fired, l'))"
  proof
    assume "timer_heap l = []"
    then have "run_timers_from cbs l fired = Some (Inr (fired, l))" by (rule run_end_empty)
    then show ?thesis by (rule exI)
  next
    assume "\<exists>x. heap_min (timer_heap l) = Some x \<and> time l < timeout (handles l x)"
    then obtain x where "heap_min (timer_heap l) = Some x" "time l < timeout (handles l x)"
      by blast
    then have "run_timers_from cbs l fired = Some (Inr (fired, l))" by (rule run_end_not_due)
    then show ?thesis by (rule exI)
  qed
next
  assume r: "\<exists>l'. run_timers_from cbs l fired = Some (Inr (fired, l'))"
  show "timer_heap l = [] \<or>
      (\<exists>x. heap_min (timer_heap l) = Some x \<and> time l < timeout (handles l x))"
  proof (cases "timer_heap l")
    case Nil
    then show ?thesis by simp
  next
    case (Cons x xs)
    then have x: "heap_min (timer_heap l) = Some x" by (simp add: heap_min_def)
    have "time l < timeout (handles l x)"
    proof (rule ccontr)
      assume "\<not> time l < timeout (handles l x)"
      then have "timeout (handles l x) \<le> time l" by (simp add: not_less)
      then show False using run_fired_nonempty [OF x] r by blast
    qed
    then show ?thesis using x by blast
  qed
qed

lemma run_ends_unchanged:
  assumes "timer_heap l = [] \<or>
      (\<exists>x. heap_min (timer_heap l) = Some x \<and> time l < timeout (handles l x))"
  shows "run_timers_from cbs l fired = Some (Inr (fired, l))"
  using assms
proof
  assume "timer_heap l = []"
  then show ?thesis by (rule run_end_empty)
next
  assume "\<exists>x. heap_min (timer_heap l) = Some x \<and> time l < timeout (handles l x)"
  then obtain x where "heap_min (timer_heap l) = Some x" "time l < timeout (handles l x)"
    by blast
  then show ?thesis by (rule run_end_not_due)
qed

lemma run_step:
  assumes inv: "timer_inv l" and hm: "heap_min (timer_heap l) = Some x"
    and d: "timeout (handles l x) \<le> time l"
  shows "x \<notin> set (timer_heap (snd (uv_timer_stop l x))) \<and>
        \<not> uv__is_active (handles (snd (uv_timer_stop l x)) x) \<and>
        time (snd (uv_timer_stop l x)) = time l \<and>
        time (snd (uv_timer_again (snd (uv_timer_stop l x)) x)) = time l \<and>
        (\<exists>c. timer_cb (handles l x) = Some c \<and>
             timer_cb (handles (snd (uv_timer_again (snd (uv_timer_stop l x)) x)) x) = Some c \<and>
             run_timers_from cbs l fired =
               run_timers_from cbs
                 (cbs c x (snd (uv_timer_again (snd (uv_timer_stop l x)) x))) (fired @ [x]))"
proof -
  let ?l2 = "snd (uv_timer_again (snd (uv_timer_stop l x)) x)"
  note fs = fire_step [OF inv hm]
  have ai: "heap_active_inv l" using inv by (simp add: timer_inv_def)
  obtain c where c: "timer_cb (handles l x) = Some c" using fs(4) by auto
  then have c2: "timer_cb (handles ?l2 x) = Some c" using fs(3) by simp
  have r: "run_timers_from cbs l fired = run_timers_from cbs (cbs c x ?l2) (fired @ [x])"
    using hm d c2 by (rule run_fire)
  have a1: "x \<notin> set (timer_heap (snd (uv_timer_stop l x)))"
    using ai by (rule not_in_heap_after_stop)
  have a2: "\<not> uv__is_active (handles (snd (uv_timer_stop l x)) x)"
    by (simp add: handles_uv_timer_stop uv__is_active_def)
  have a3: "time (snd (uv_timer_stop l x)) = time l" by (rule time_uv_timer_stop)
  have a4: "time ?l2 = time l" by (rule fs(2))
  have a5: "\<exists>c. timer_cb (handles l x) = Some c \<and> timer_cb (handles ?l2 x) = Some c \<and>
             run_timers_from cbs l fired = run_timers_from cbs (cbs c x ?l2) (fired @ [x])"
    using c c2 r by (intro exI [of _ c] conjI)
  show ?thesis using a1 a2 a3 a4 a5 by (intro conjI)
qed

lemma run_rearm:
  assumes inv: "timer_inv l" and hm: "heap_min (timer_heap l) = Some x"
  shows "(repeat (handles l x) \<noteq> 0 \<longrightarrow>
            snd (uv_timer_again (snd (uv_timer_stop l x)) x) =
              snd (uv_timer_start (snd (uv_timer_stop l x)) x (timer_cb (handles l x))
                     (repeat (handles l x)) (repeat (handles l x))) \<and>
            x \<in> set (timer_heap (snd (uv_timer_again (snd (uv_timer_stop l x)) x))) \<and>
            uv__is_active (handles (snd (uv_timer_again (snd (uv_timer_stop l x)) x)) x) \<and>
            timeout (handles (snd (uv_timer_again (snd (uv_timer_stop l x)) x)) x) = rearmed l x \<and>
            (time l \<noteq> - 1 \<longrightarrow>
               time l < timeout (handles (snd (uv_timer_again (snd (uv_timer_stop l x)) x)) x))) \<and>
         (repeat (handles l x) = 0 \<longrightarrow>
            snd (uv_timer_again (snd (uv_timer_stop l x)) x) = snd (uv_timer_stop l x)) \<and>
         repeat (handles (snd (uv_timer_again (snd (uv_timer_stop l x)) x)) x) =
           repeat (handles l x) \<and>
         (\<forall>h. h \<noteq> x \<longrightarrow>
            handles (snd (uv_timer_again (snd (uv_timer_stop l x)) x)) h = handles l h) \<and>
         set (timer_heap (snd (uv_timer_again (snd (uv_timer_stop l x)) x))) - {x} =
           set (timer_heap l) - {x} \<and>
         timer_inv (snd (uv_timer_again (snd (uv_timer_stop l x)) x))"
proof -
  let ?l1 = "snd (uv_timer_stop l x)"
  let ?l2 = "snd (uv_timer_again ?l1 x)"
  note fs = fire_step [OF inv hm]
  have h1: "handles ?l1 = (handles l)(x := (handles l x)\<lparr>active := False\<rparr>)"
    by (rule handles_uv_timer_stop)
  have na: "\<not> uv__is_active (handles ?l1 x)" by (simp add: h1 uv__is_active_def)
  have st: "snd (uv_timer_stop ?l1 x) = ?l1" using na by (simp add: uv_timer_stop_def)
  have r1: "?l2 = snd (uv_timer_start ?l1 x (timer_cb (handles l x))
                     (repeat (handles l x)) (repeat (handles l x)))"
    if "repeat (handles l x) \<noteq> 0"
    using that fs(4) by (auto simp: snd_uv_timer_again h1 st)
  have r2: "x \<in> set (timer_heap ?l2)" if "repeat (handles l x) \<noteq> 0"
    using that fs(7,10) by simp
  have r3: "uv__is_active (handles ?l2 x)" if "repeat (handles l x) \<noteq> 0"
    using that fs(9) by simp
  have r4: "timeout (handles ?l2 x) = rearmed l x" if "repeat (handles l x) \<noteq> 0"
    using that fs(8) by simp
  have r5: "time l < timeout (handles ?l2 x)" if "repeat (handles l x) \<noteq> 0" "time l \<noteq> - 1"
    unfolding r4 [OF that(1)] using that(2,1) by (rule rearmed_later)
  have z: "?l2 = ?l1" if "repeat (handles l x) = 0"
    using that by (simp add: snd_uv_timer_again h1)
  have others: "\<forall>h. h \<noteq> x \<longrightarrow> handles ?l2 h = handles l h" using fs(6) by blast
  have sets: "set (timer_heap ?l2) - {x} = set (timer_heap l) - {x}"
    using fs(7) by (cases "repeat (handles l x) = 0") simp_all
  show ?thesis
    using r1 r2 r3 r4 r5 z fs(5) others sets fs(1) by (intro conjI impI)
qed

lemma run_time:
  assumes k: "\<forall>c x s. time (cbs c x s) = time s"
    and r: "run_timers_from cbs l fired = Some (Inr (tr, l'))"
  shows "time l' = time l"
proof (rule run_preserves [where Q = "\<lambda>s. time s = time l", OF r])
  show "time l = time l" by (rule refl)
  show "\<And>s x. time s = time l \<Longrightarrow> time (snd (uv_timer_stop s x)) = time l"
    by (simp add: time_uv_timer_stop)
  show "\<And>s x. time s = time l \<Longrightarrow> time (snd (uv_timer_again s x)) = time l"
    by (simp add: time_uv_timer_again)
  show "\<And>c x s. time s = time l \<Longrightarrow> time (cbs c x s) = time l"
    using k by simp
qed

lemma uv__next_timeout_positive:
  assumes hm: "heap_min (timer_heap l) = Some x" and lt: "time l < timeout (handles l x)"
  shows "uv__next_timeout l =
           min (int (unat (timeout (handles l x))) - int (unat (time l))) INT_MAX \<and>
         0 < uv__next_timeout l"
proof -
  let ?t = "timeout (handles l x)"
  have le: "time l \<le> ?t" using lt by simp
  have "unat (?t - time l) = unat ?t - unat (time l)" using le by (rule unat_sub)
  moreover have ul: "unat (time l) < unat ?t" using lt by (simp add: word_less_nat_alt)
  ultimately have "int (unat (?t - time l)) = int (unat ?t) - int (unat (time l))"
    by linarith
  then have d: "uint (?t - time l) = int (unat ?t) - int (unat (time l))"
    by (simp only: uint_nat)
  have "uv__next_timeout l = (if uint (?t - time l) > INT_MAX then INT_MAX else uint (?t - time l))"
  proof -
    have "\<not> ?t \<le> time l" using lt by (simp only: not_le)
    then show ?thesis using hm by (simp add: uv__next_timeout_def Let_def)
  qed
  then have e: "uv__next_timeout l = min (int (unat ?t) - int (unat (time l))) INT_MAX"
    unfolding d by (simp add: min_def)
  have "0 < int (unat ?t) - int (unat (time l))" using ul by linarith
  then have "0 < uv__next_timeout l" unfolding e by (simp add: INT_MAX_def)
  then show ?thesis using e by simp
qed

lemma timer_less_than_order:
  "\<not> timer_less_than hs a a"
  "timer_less_than hs a b \<Longrightarrow> \<not> timer_less_than hs b a"
  "timer_less_than hs a b \<Longrightarrow> timer_less_than hs b c \<Longrightarrow> timer_less_than hs a c"
  "start_id (hs a) \<noteq> start_id (hs b) \<Longrightarrow> timer_less_than hs a b \<or> timer_less_than hs b a"
  "timer_less_than hs a b \<longleftrightarrow>
     timeout (hs a) < timeout (hs b) \<or>
     timeout (hs a) = timeout (hs b) \<and> start_id (hs a) < start_id (hs b)"
proof -
  show "\<not> timer_less_than hs a a" by (simp add: timer_less_than_key)
  show "timer_less_than hs a b \<Longrightarrow> \<not> timer_less_than hs b a"
    unfolding timer_less_than_key by (rule less_not_sym)
  show "timer_less_than hs a b \<Longrightarrow> timer_less_than hs b c \<Longrightarrow> timer_less_than hs a c"
    unfolding timer_less_than_key by (rule less_trans)
  show "start_id (hs a) \<noteq> start_id (hs b) \<Longrightarrow> timer_less_than hs a b \<or> timer_less_than hs b a"
  proof -
    assume "start_id (hs a) \<noteq> start_id (hs b)"
    then have "tkey hs a \<noteq> tkey hs b" by (simp add: tkey_def)
    then show ?thesis unfolding timer_less_than_key by (simp only: neq_iff)
  qed
  have "timer_less_than hs a b \<longleftrightarrow>
      timeout (hs a) < timeout (hs b) \<or>
      timeout (hs a) \<le> timeout (hs b) \<and> start_id (hs a) < start_id (hs b)"
    by (simp add: timer_less_than_key tkey_def)
  moreover have "timeout (hs a) < timeout (hs b) \<or>
      timeout (hs a) \<le> timeout (hs b) \<and> start_id (hs a) < start_id (hs b) \<longleftrightarrow>
      timeout (hs a) < timeout (hs b) \<or>
      timeout (hs a) = timeout (hs b) \<and> start_id (hs a) < start_id (hs b)"
    using le_less [of "timeout (hs a)" "timeout (hs b)"] by blast
  ultimately show "timer_less_than hs a b \<longleftrightarrow>
     timeout (hs a) < timeout (hs b) \<or>
     timeout (hs a) = timeout (hs b) \<and> start_id (hs a) < start_id (hs b)"
    by (rule trans)
qed

lemma extract_all_sorted_le:
  assumes inv: "timer_inv l"
  shows "sorted_wrt (\<lambda>a b. \<not> timer_less_than (handles l) b a)
           (extract_all (timer_less_than (handles l)) (timer_heap l)) \<and>
         mset (extract_all (timer_less_than (handles l)) (timer_heap l)) = mset (timer_heap l)"
proof -
  have ok: "heap_ok (tkey (handles l)) (timer_heap l)" using inv by (simp add: timer_inv_def)
  have d: "distinct (timer_heap l)" using inv by (simp add: timer_inv_def heap_active_inv_def)
  have "sorted_wrt (\<lambda>a b. tkey (handles l) a \<le> tkey (handles l) b)
           (extract_n (length (timer_heap l))
              (\<lambda>a b. tkey (handles l) a < tkey (handles l) b) (timer_heap l)) \<and>
         mset (extract_n (length (timer_heap l))
              (\<lambda>a b. tkey (handles l) a < tkey (handles l) b) (timer_heap l)) =
           mset (timer_heap l)"
    using ok d by (rule extract_n_sorted_le) (rule refl)
  then show ?thesis
    unfolding extract_all_def timer_less_than_key by (simp add: not_less)
qed

lemma extract_all_sorted:
  assumes inv: "timer_inv l" and ids: "start_id_inv l"
  shows "sorted_wrt (timer_less_than (handles l))
           (extract_all (timer_less_than (handles l)) (timer_heap l)) \<and>
         mset (extract_all (timer_less_than (handles l)) (timer_heap l)) = mset (timer_heap l)"
proof -
  have ok: "heap_ok (tkey (handles l)) (timer_heap l)" using inv by (simp add: timer_inv_def)
  have d: "distinct (timer_heap l)" using inv by (simp add: timer_inv_def heap_active_inv_def)
  have i: "inj_on (\<lambda>h. start_id (handles l h)) (set (timer_heap l))"
    using ids by (simp add: start_id_inv_def)
  have k: "inj_on (tkey (handles l)) (set (timer_heap l))"
  proof (rule inj_onI)
    fix a b assume "a \<in> set (timer_heap l)" "b \<in> set (timer_heap l)"
      "tkey (handles l) a = tkey (handles l) b"
    then show "a = b" using i by (auto simp: tkey_def dest: inj_onD)
  qed
  show ?thesis
    unfolding extract_all_def timer_less_than_key
    using ok d k by (rule extract_n_sorted) (rule refl)
qed

lemma timer_inv_time: "timer_inv (l\<lparr>time := t\<rparr>) = timer_inv l"
  by (simp add: timer_inv_def heap_active_inv_def)

lemma timer_inv_timer_counter: "timer_inv (l\<lparr>timer_counter := c\<rparr>) = timer_inv l"
  by (simp add: timer_inv_def heap_active_inv_def)

lemma one_timer_eval:
  "timer_heap one_timer = [3]" "time one_timer = 0" "timer_counter one_timer = 1"
  "handles one_timer 3 = \<lparr>timer_cb = Some 1, timeout = 10, repeat = 10, start_id = 0,
      active = True, closing = False\<rparr>"
  by (simp_all add: one_timer_def uv_timer_start_def loop_at_def handle_zero_def Let_def
      set_handle_def uv__is_closing_def uv__is_active_def uv__handle_start_def heap_insert_def
      sift_up.simps)

lemma timer_inv_one_timer: "timer_inv one_timer"
  unfolding one_timer_def by (rule timer_inv_start) (rule timer_inv_loop_at)

lemma start_id_inv_one_timer: "start_id_inv one_timer"
  by (simp add: start_id_inv_def one_timer_eval)

lemma start_id_inv_drifted: "start_id_inv drifted"
  unfolding drifted_def start_id_inv_time by (rule start_id_inv_one_timer)

lemma timer_inv_drifted: "timer_inv drifted"
  unfolding drifted_def timer_inv_time by (rule timer_inv_one_timer)

lemma drifted_eval:
  "timer_heap drifted = [3]" "time drifted = 35"
  "handles drifted 3 = \<lparr>timer_cb = Some 1, timeout = 10, repeat = 10, start_id = 0,
      active = True, closing = False\<rparr>"
  by (simp_all add: drifted_def one_timer_eval)

lemma timer_inv_two_timers: "timer_inv two_timers"
  unfolding two_timers_def by (rule timer_inv_start) (rule timer_inv_one_timer)

lemma two_timers_eval:
  "timer_heap two_timers = [3, 5]"
  "timeout (handles two_timers 3) = 10" "timeout (handles two_timers 5) = 10"
  "start_id (handles two_timers 3) = 0" "start_id (handles two_timers 5) = 1"
  "timer_counter two_timers = 2"
proof -
  have c: "Some (1::nat) \<noteq> None" "\<not> uv__is_closing (handles one_timer 5)"
    by (simp_all add: one_timer_def uv_timer_start_def loop_at_def handle_zero_def Let_def
      set_handle_def uv__is_closing_def uv__is_active_def uv__handle_start_def)
  have na: "\<not> uv__is_active (handles one_timer 5)"
    by (simp add: one_timer_def uv_timer_start_def loop_at_def handle_zero_def Let_def
      set_handle_def uv__is_closing_def uv__is_active_def uv__handle_start_def)
  note fl = uv_timer_start_fields [OF c, of 10 0, folded two_timers_def]
  show "timeout (handles two_timers 3) = 10" "timeout (handles two_timers 5) = 10"
    "start_id (handles two_timers 3) = 0" "start_id (handles two_timers 5) = 1"
    by (simp_all add: fl(4) started_def one_timer_eval)
  show "timer_counter two_timers = 2"
    by (simp add: fl(3) one_timer_eval)
  show "timer_heap two_timers = [3, 5]"
    unfolding fl(5)
    using na
    by (simp add: uv_timer_stop_def one_timer_eval heap_insert_def sift_up.simps
        heap_parent_def timer_less_than_def started_def)
qed

lemma start_id_inv_two_timers: "start_id_inv two_timers"
  by (simp add: start_id_inv_def two_timers_eval)

lemma count_list_distinct: "distinct xs \<Longrightarrow> x \<in> set xs \<Longrightarrow> count_list xs x = 1"
  by (induction xs) auto

lemma run_never_returns:
  assumes "cb_inert cbs" "timer_inv l" "time l = - 1" "timer_heap l \<noteq> []"
    "\<forall>h\<in>set (timer_heap l). repeat (handles l h) \<noteq> 0"
  shows "uv__run_timers cbs l = None"
proof (cases "run_timers_from cbs l []")
  case None
  then show ?thesis by (simp add: uv__run_timers_def)
next
  case (Some r)
  then show ?thesis using run_diverges [OF Some] assms by blast
qed

lemma at_max_eval:
  "timer_heap at_max = [3]" "time at_max = - 1" "repeat (handles at_max 3) = 1"
  by (simp_all add: at_max_def uv_timer_start_def loop_at_def handle_zero_def Let_def
      set_handle_def uv__is_closing_def uv__is_active_def uv__handle_start_def heap_insert_def
      sift_up.simps)

lemma timer_inv_at_max: "timer_inv at_max"
  unfolding at_max_def by (rule timer_inv_start) (rule timer_inv_loop_at)

lemma overdue_at_max_eval:
  "timer_heap overdue_at_max = [3]" "time overdue_at_max = - 1"
  "repeat (handles overdue_at_max 3) = 10" "timeout (handles overdue_at_max 3) = 10"
  by (simp_all add: overdue_at_max_def one_timer_eval)

lemma timer_inv_overdue_at_max: "timer_inv overdue_at_max"
  unfolding overdue_at_max_def timer_inv_time by (rule timer_inv_one_timer)

lemma closed_timer_eval:
  "timer_heap closed_timer = []"
  "handles closed_timer 3 = \<lparr>timer_cb = Some 1, timeout = 5, repeat = 5, start_id = 0,
      active = False, closing = True\<rparr>"
  by (simp_all add: closed_timer_def uv__timer_close_def uv_timer_stop_def uv_timer_start_def
      loop_at_def handle_zero_def Let_def set_handle_def uv__is_closing_def uv__is_active_def
      uv__handle_start_def uv__handle_stop_def heap_insert_def heap_remove_def sift_up.simps)

lemma rearmed_unat:
  "unat (rearmed l h) = min (unat (time l) + unat (repeat (handles l h))) (2 ^ 64 - 1)"
  unfolding rearmed_def by (rule clamp_unat)

lemma again_not_closing:
  assumes cb: "timer_cb (handles l h) \<noteq> None" and r: "repeat (handles l h) \<noteq> 0"
    and nc: "\<not> uv__is_closing (handles l h)"
  shows "timeout (handles (snd (uv_timer_again l h)) h) = rearmed l h"
    and "repeat (handles (snd (uv_timer_again l h)) h) = repeat (handles l h)"
    and "uv__is_active (handles (snd (uv_timer_again l h)) h)"
    and "heap_active_inv l \<Longrightarrow> h \<in> set (timer_heap (snd (uv_timer_again l h)))"
proof -
  let ?l1 = "snd (uv_timer_stop l h)"
  let ?c = "timer_cb (handles l h)" and ?r = "repeat (handles l h)"
  have e: "snd (uv_timer_again l h) = snd (uv_timer_start ?l1 h ?c ?r ?r)"
    using cb r by (auto simp: snd_uv_timer_again)
  have c1: "?c \<noteq> None" "\<not> uv__is_closing (handles ?l1 h)"
    using cb nc by (simp_all add: handles_uv_timer_stop uv__is_closing_def)
  note fl = uv_timer_start_fields [OF c1, of ?r ?r]
  show "timeout (handles (snd (uv_timer_again l h)) h) = rearmed l h"
    unfolding e fl(4) by (simp add: started_def rearmed_def time_uv_timer_stop)
  show "repeat (handles (snd (uv_timer_again l h)) h) = repeat (handles l h)"
    unfolding e fl(4) by (simp add: started_def)
  show a: "uv__is_active (handles (snd (uv_timer_again l h)) h)"
    unfolding e fl(4) by (simp add: started_def uv__is_active_def)
  show "h \<in> set (timer_heap (snd (uv_timer_again l h)))" if "heap_active_inv l"
    using heap_active_inv_again [OF that, of h] a by (simp add: heap_active_inv_def)
qed

lemma again_closing:
  assumes "uv__is_closing (handles l h)"
  shows "snd (uv_timer_again l h) = snd (uv_timer_stop l h) \<or> snd (uv_timer_again l h) = l"
proof -
  have "uv__is_closing (handles (snd (uv_timer_stop l h)) h)"
    using assms by (simp add: handles_uv_timer_stop uv__is_closing_def)
  then show ?thesis by (simp add: snd_uv_timer_again uv_timer_start_failed)
qed

lemma run_fires_once:
  assumes "timer_inv l" "cb_inert cbs" "time l \<noteq> - 1" "h \<in> due l" "repeat (handles l h) \<noteq> 0"
  shows "\<exists>tr l'. uv__run_timers cbs l = Some (Inr (tr, l')) \<and> count_list tr h = 1 \<and>
           timeout (handles l' h) = rearmed l h \<and> time l < timeout (handles l' h) \<and>
           uv__is_active (handles l' h)"
proof -
  obtain tr l' where r: "run_timers_from cbs l [] = Some (Inr ([] @ tr, l'))"
    "distinct tr" "set tr = due l"
    "cb_inert cbs \<longrightarrow>
              (\<forall>h. repeat (handles l' h) = repeat (handles l h) \<and>
                   timer_cb (handles l' h) = timer_cb (handles l h) \<and>
                   (h \<notin> due l \<longrightarrow> handles l' h = handles l h) \<and>
                   (h \<in> due l \<longrightarrow>
                      timeout (handles l' h) =
                        (if repeat (handles l h) = 0 then timeout (handles l h) else rearmed l h) \<and>
                      uv__is_active (handles l' h) = (repeat (handles l h) \<noteq> 0)))"
    using run_timers_total [OF cb_inert_keeps [OF assms(2)] assms(3) assms(1), of "[]"] by blast
  have f: "timeout (handles l' h) = rearmed l h" "uv__is_active (handles l' h)"
    using r(4) assms(2,4,5) by auto
  have "count_list tr h = 1" using r(2,3) assms(4) by (simp add: count_list_distinct)
  moreover have "time l < timeout (handles l' h)"
    unfolding f(1) using assms(3,5) by (rule rearmed_later)
  moreover have "uv__run_timers cbs l = Some (Inr (tr, l'))"
    using r(1) by (simp add: uv__run_timers_def)
  ultimately show ?thesis using f by blast
qed

lemma three_timers_eval:
  "timer_heap three_timers = [5, 3, 7]"
  "timeout (handles three_timers 3) = 30" "timeout (handles three_timers 5) = 10"
  "timeout (handles three_timers 7) = 20"
  "start_id (handles three_timers 3) = 0" "start_id (handles three_timers 5) = 1"
  "start_id (handles three_timers 7) = 2" "timer_counter three_timers = 3"
  by (simp_all add: three_timers_def uv_timer_start_def loop_at_def handle_zero_def Let_def
      set_handle_def uv__is_closing_def uv__is_active_def uv__handle_start_def heap_insert_def
      sift_up.simps heap_parent_def heap_node_swap_def timer_less_than_def)

lemma three_timers_extract:
  "extract_all (timer_less_than (handles three_timers)) (timer_heap three_timers) = [5, 7, 3]"
  by (simp add: extract_all_def three_timers_eval heap_min_def heap_remove_def
      sift_up.simps sift_down.simps heap_parent_def heap_node_swap_def timer_less_than_def
      Let_def)

lemma timer_inv_three_timers: "timer_inv three_timers"
  unfolding three_timers_def by (intro timer_inv_start timer_inv_loop_at)

lemma start_id_inv_three_timers: "start_id_inv three_timers"
  by (simp add: start_id_inv_def three_timers_eval)

lemma counter_at_max_eval:
  "timer_heap counter_at_max = [3]" "timer_counter counter_at_max = - 1"
  "timeout (handles counter_at_max 3) = 10" "start_id (handles counter_at_max 3) = 0"
  by (simp_all add: counter_at_max_def one_timer_eval)

lemma timer_inv_counter_at_max: "timer_inv counter_at_max"
  unfolding counter_at_max_def timer_inv_timer_counter by (rule timer_inv_one_timer)

lemma start_id_inv_counter_at_max: "start_id_inv counter_at_max"
  by (simp add: start_id_inv_def counter_at_max_eval word_gt_0)

lemma counter_wrapped_eval:
  "timer_heap counter_wrapped = [3, 5, 7]"
  "timeout (handles counter_wrapped 3) = 10" "timeout (handles counter_wrapped 5) = 10"
  "timeout (handles counter_wrapped 7) = 10"
  "start_id (handles counter_wrapped 3) = 0" "start_id (handles counter_wrapped 5) = - 1"
  "start_id (handles counter_wrapped 7) = 0" "timer_counter counter_wrapped = 1"
  by (simp_all add: counter_wrapped_def counter_at_max_def one_timer_def uv_timer_start_def
      loop_at_def handle_zero_def Let_def set_handle_def uv__is_closing_def uv__is_active_def
      uv__handle_start_def heap_insert_def sift_up.simps heap_parent_def heap_node_swap_def
      timer_less_than_def)

lemma counter_wrapped_started:
  "fst (uv_timer_start counter_at_max 5 (Some 1) 10 0) = 0"
  "fst (uv_timer_start (snd (uv_timer_start counter_at_max 5 (Some 1) 10 0)) 7 (Some 1) 10 0) = 0"
  by (simp_all add: counter_at_max_def one_timer_def uv_timer_start_def
      loop_at_def handle_zero_def Let_def set_handle_def uv__is_closing_def uv__is_active_def
      uv__handle_start_def)

lemma counter_wrapped_extract:
  "extract_all (timer_less_than (handles counter_wrapped)) (timer_heap counter_wrapped) =
     [3, 7, 5]"
  by (simp add: extract_all_def counter_wrapped_eval heap_min_def heap_remove_def
      sift_up.simps sift_down.simps heap_parent_def heap_node_swap_def timer_less_than_def
      Let_def)

lemma timer_inv_counter_wrapped: "timer_inv counter_wrapped"
  unfolding counter_wrapped_def by (intro timer_inv_start timer_inv_counter_at_max)

lemma uv_timer_start_fresh:
  assumes inv: "timer_inv l" and ids: "start_id_inv l"
    and ok: "cb \<noteq> None \<and> \<not> uv__is_closing (handles l h) \<and> timer_counter l \<noteq> - 1"
  shows "start_id (handles (snd (uv_timer_start l h cb tmo rep)) h) = timer_counter l"
    and "timer_counter (snd (uv_timer_start l h cb tmo rep)) = timer_counter l + 1"
    and "timer_counter l < timer_counter (snd (uv_timer_start l h cb tmo rep))"
    and "\<forall>y\<in>set (timer_heap (snd (uv_timer_start l h cb tmo rep))). y \<noteq> h \<longrightarrow>
           start_id (handles (snd (uv_timer_start l h cb tmo rep)) y)
             < start_id (handles (snd (uv_timer_start l h cb tmo rep)) h)"
proof -
  have c: "cb \<noteq> None" "\<not> uv__is_closing (handles l h)" and nw: "timer_counter l \<noteq> - 1"
    using ok by blast+
  note fl = uv_timer_start_fields [OF c, of tmo rep]
  have a: "heap_active_inv l" using inv by (simp add: timer_inv_def)
  show "start_id (handles (snd (uv_timer_start l h cb tmo rep)) h) = timer_counter l"
    by (simp add: fl(4) started_def)
  show "timer_counter (snd (uv_timer_start l h cb tmo rep)) = timer_counter l + 1"
    by (rule fl(3))
  show "timer_counter l < timer_counter (snd (uv_timer_start l h cb tmo rep))"
    unfolding fl(3) using nw by (rule counter_less_next)
  show "\<forall>y\<in>set (timer_heap (snd (uv_timer_start l h cb tmo rep))). y \<noteq> h \<longrightarrow>
           start_id (handles (snd (uv_timer_start l h cb tmo rep)) y)
             < start_id (handles (snd (uv_timer_start l h cb tmo rep)) h)"
  proof (intro ballI impI)
    fix y
    assume y: "y \<in> set (timer_heap (snd (uv_timer_start l h cb tmo rep)))" "y \<noteq> h"
    have "set (timer_heap (snd (uv_timer_start l h cb tmo rep))) = insert h (set (timer_heap l))"
      using a c by (rule set_heap_after_start)
    then have "y \<in> set (timer_heap l)" using y by simp
    then have "start_id (handles l y) < timer_counter l" using ids by (simp add: start_id_inv_def)
    then show "start_id (handles (snd (uv_timer_start l h cb tmo rep)) y)
             < start_id (handles (snd (uv_timer_start l h cb tmo rep)) h)"
      using y(2) by (simp add: fl(4) started_def)
  qed
qed

lemma drifted_rearmed_eval:
  "timer_heap (snd (uv_timer_again (snd (uv_timer_stop drifted 3)) 3)) = [3]"
  "time (snd (uv_timer_again (snd (uv_timer_stop drifted 3)) 3)) = 35"
  "handles (snd (uv_timer_again (snd (uv_timer_stop drifted 3)) 3)) 3 =
     \<lparr>timer_cb = Some 1, timeout = 45, repeat = 10, start_id = 1, active = True,
      closing = False\<rparr>"
  by (simp_all add: uv_timer_again_def uv_timer_stop_def uv_timer_start_def drifted_eval
      drifted_def one_timer_eval Let_def set_handle_def uv__is_closing_def uv__is_active_def
      uv__handle_start_def uv__handle_stop_def heap_insert_def heap_remove_def sift_up.simps)

lemma drifted_run:
  "uv__run_timers cb_noop drifted =
     Some (Inr ([3], snd (uv_timer_again (snd (uv_timer_stop drifted 3)) 3)))"
proof -
  let ?l2 = "snd (uv_timer_again (snd (uv_timer_stop drifted 3)) 3)"
  have hm: "heap_min (timer_heap drifted) = Some 3" by (simp add: drifted_eval heap_min_def)
  have d: "timeout (handles drifted 3) \<le> time drifted" by (simp add: drifted_eval)
  have c: "timer_cb (handles ?l2 3) = Some 1" by (simp add: drifted_rearmed_eval)
  have "run_timers_from cb_noop drifted [] = run_timers_from cb_noop (cb_noop 1 3 ?l2) ([] @ [3])"
    using hm d c by (rule run_fire)
  then have s1: "run_timers_from cb_noop drifted [] = run_timers_from cb_noop ?l2 [3]"
    by (simp add: cb_noop_def)
  have hm2: "heap_min (timer_heap ?l2) = Some 3" by (simp add: drifted_rearmed_eval heap_min_def)
  have nd: "time ?l2 < timeout (handles ?l2 3)" by (simp add: drifted_rearmed_eval)
  have "run_timers_from cb_noop ?l2 [3] = Some (Inr ([3], ?l2))"
    using hm2 nd by (rule run_end_not_due)
  then show ?thesis using s1 by (simp add: uv__run_timers_def)
qed

section \<open>Claims\<close>

text \<open>
  C1. Each pass of the loop of \<^verbatim>\<open>uv__run_timers\<close> looks at the heap minimum. The call
  returns without firing anything more exactly when the heap is empty or the minimum's
  timeout is strictly greater than the cached loop time, and then leaves the loop untouched.
  When the callbacks do not change the cached time, the time at the end is the time at the
  start. In a consistent loop the minimum is a least handle under the comparator (the
  least one when the start_ids of the heap are distinct), and a due minimum is first
  stopped (it is out of the heap and inactive), then re-armed by \<^verbatim>\<open>uv_timer_again\<close>,
  and only then is its callback invoked, on the loop reached so far; the call goes on from
  the loop the callback left. The re-arm: with a non-zero repeat \<^verbatim>\<open>uv_timer_again\<close> is
  the \<^verbatim>\<open>uv_timer_start\<close> of the stopped handle with its own callback and its repeat as
  delay and as repeat, so the handle is back in the heap, active, with the deadline loop
  time plus repeat (saturated; after the loop time when that is below \<open>2^64 - 1\<close>); with
  repeat zero the handle stays stopped. The re-arm keeps the repeat, the other handles, the
  rest of the heap and the consistency of the loop. Neither the stop nor the re-arm changes
  the cached time.
\<close>

theorem uv__run_timers_protocol:
  "((\<exists>l'. run_timers_from cbs l fired = Some (Inr (fired, l'))) \<longleftrightarrow>
      (timer_heap l = [] \<or>
       (\<exists>x. heap_min (timer_heap l) = Some x \<and> time l < timeout (handles l x)))) \<and>
   (timer_heap l = [] \<or>
       (\<exists>x. heap_min (timer_heap l) = Some x \<and> time l < timeout (handles l x)) \<longrightarrow>
      run_timers_from cbs l fired = Some (Inr (fired, l))) \<and>
   ((\<forall>c x s. time (cbs c x s) = time s) \<longrightarrow>
      (\<forall>tr l'. run_timers_from cbs l fired = Some (Inr (tr, l')) \<longrightarrow> time l' = time l)) \<and>
   uv__run_timers cbs l = run_timers_from cbs l [] \<and>
   (timer_inv l \<longrightarrow>
      (\<forall>x. heap_min (timer_heap l) = Some x \<longrightarrow>
         (\<forall>y\<in>set (timer_heap l). \<not> timer_less_than (handles l) y x) \<and>
         (start_id_inv l \<longrightarrow>
            (\<forall>y\<in>set (timer_heap l). y \<noteq> x \<longrightarrow> timer_less_than (handles l) x y))) \<and>
      (\<forall>x. heap_min (timer_heap l) = Some x \<and> timeout (handles l x) \<le> time l \<longrightarrow>
         (x \<notin> set (timer_heap (snd (uv_timer_stop l x))) \<and>
          \<not> uv__is_active (handles (snd (uv_timer_stop l x)) x) \<and>
          time (snd (uv_timer_stop l x)) = time l \<and>
          time (snd (uv_timer_again (snd (uv_timer_stop l x)) x)) = time l \<and>
          (\<exists>c. timer_cb (handles l x) = Some c \<and>
               timer_cb (handles (snd (uv_timer_again (snd (uv_timer_stop l x)) x)) x) = Some c \<and>
               run_timers_from cbs l fired =
                 run_timers_from cbs
                   (cbs c x (snd (uv_timer_again (snd (uv_timer_stop l x)) x))) (fired @ [x]))) \<and>
         ((repeat (handles l x) \<noteq> 0 \<longrightarrow>
            snd (uv_timer_again (snd (uv_timer_stop l x)) x) =
              snd (uv_timer_start (snd (uv_timer_stop l x)) x (timer_cb (handles l x))
                     (repeat (handles l x)) (repeat (handles l x))) \<and>
            x \<in> set (timer_heap (snd (uv_timer_again (snd (uv_timer_stop l x)) x))) \<and>
            uv__is_active (handles (snd (uv_timer_again (snd (uv_timer_stop l x)) x)) x) \<and>
            timeout (handles (snd (uv_timer_again (snd (uv_timer_stop l x)) x)) x) = rearmed l x \<and>
            (time l \<noteq> - 1 \<longrightarrow>
               time l < timeout (handles (snd (uv_timer_again (snd (uv_timer_stop l x)) x)) x))) \<and>
          (repeat (handles l x) = 0 \<longrightarrow>
            snd (uv_timer_again (snd (uv_timer_stop l x)) x) = snd (uv_timer_stop l x)) \<and>
          repeat (handles (snd (uv_timer_again (snd (uv_timer_stop l x)) x)) x) =
            repeat (handles l x) \<and>
          (\<forall>h. h \<noteq> x \<longrightarrow>
            handles (snd (uv_timer_again (snd (uv_timer_stop l x)) x)) h = handles l h) \<and>
          set (timer_heap (snd (uv_timer_again (snd (uv_timer_stop l x)) x))) - {x} =
            set (timer_heap l) - {x} \<and>
          timer_inv (snd (uv_timer_again (snd (uv_timer_stop l x)) x)))))"
proof (intro conjI impI)
  show "(\<exists>l'. run_timers_from cbs l fired = Some (Inr (fired, l'))) \<longleftrightarrow>
        (timer_heap l = [] \<or>
         (\<exists>x. heap_min (timer_heap l) = Some x \<and> time l < timeout (handles l x)))"
    by (rule run_ends_iff)
  show "run_timers_from cbs l fired = Some (Inr (fired, l))"
    if "timer_heap l = [] \<or>
         (\<exists>x. heap_min (timer_heap l) = Some x \<and> time l < timeout (handles l x))"
    using that by (rule run_ends_unchanged)
  show "\<forall>tr l'. run_timers_from cbs l fired = Some (Inr (tr, l')) \<longrightarrow> time l' = time l"
    if "\<forall>c x s. time (cbs c x s) = time s"
    using run_time [OF that] by blast
  show "uv__run_timers cbs l = run_timers_from cbs l []"
    by (simp add: uv__run_timers_def)
  show "\<forall>x. heap_min (timer_heap l) = Some x \<longrightarrow>
         (\<forall>y\<in>set (timer_heap l). \<not> timer_less_than (handles l) y x) \<and>
         (start_id_inv l \<longrightarrow>
            (\<forall>y\<in>set (timer_heap l). y \<noteq> x \<longrightarrow> timer_less_than (handles l) x y))"
    if inv: "timer_inv l"
  proof (intro allI impI conjI ballI)
    fix x y
    assume hm: "heap_min (timer_heap l) = Some x" and y: "y \<in> set (timer_heap l)"
    show "\<not> timer_less_than (handles l) y x" using inv hm y by (rule heap_min_not_less)
    show "timer_less_than (handles l) x y" if "start_id_inv l" "y \<noteq> x"
      using inv that(1) hm y that(2) by (rule heap_min_strict)
  qed
  show "\<forall>x. heap_min (timer_heap l) = Some x \<and> timeout (handles l x) \<le> time l \<longrightarrow>
         (x \<notin> set (timer_heap (snd (uv_timer_stop l x))) \<and>
          \<not> uv__is_active (handles (snd (uv_timer_stop l x)) x) \<and>
          time (snd (uv_timer_stop l x)) = time l \<and>
          time (snd (uv_timer_again (snd (uv_timer_stop l x)) x)) = time l \<and>
          (\<exists>c. timer_cb (handles l x) = Some c \<and>
               timer_cb (handles (snd (uv_timer_again (snd (uv_timer_stop l x)) x)) x) = Some c \<and>
               run_timers_from cbs l fired =
                 run_timers_from cbs
                   (cbs c x (snd (uv_timer_again (snd (uv_timer_stop l x)) x))) (fired @ [x]))) \<and>
         ((repeat (handles l x) \<noteq> 0 \<longrightarrow>
            snd (uv_timer_again (snd (uv_timer_stop l x)) x) =
              snd (uv_timer_start (snd (uv_timer_stop l x)) x (timer_cb (handles l x))
                     (repeat (handles l x)) (repeat (handles l x))) \<and>
            x \<in> set (timer_heap (snd (uv_timer_again (snd (uv_timer_stop l x)) x))) \<and>
            uv__is_active (handles (snd (uv_timer_again (snd (uv_timer_stop l x)) x)) x) \<and>
            timeout (handles (snd (uv_timer_again (snd (uv_timer_stop l x)) x)) x) = rearmed l x \<and>
            (time l \<noteq> - 1 \<longrightarrow>
               time l < timeout (handles (snd (uv_timer_again (snd (uv_timer_stop l x)) x)) x))) \<and>
          (repeat (handles l x) = 0 \<longrightarrow>
            snd (uv_timer_again (snd (uv_timer_stop l x)) x) = snd (uv_timer_stop l x)) \<and>
          repeat (handles (snd (uv_timer_again (snd (uv_timer_stop l x)) x)) x) =
            repeat (handles l x) \<and>
          (\<forall>h. h \<noteq> x \<longrightarrow>
            handles (snd (uv_timer_again (snd (uv_timer_stop l x)) x)) h = handles l h) \<and>
          set (timer_heap (snd (uv_timer_again (snd (uv_timer_stop l x)) x))) - {x} =
            set (timer_heap l) - {x} \<and>
          timer_inv (snd (uv_timer_again (snd (uv_timer_stop l x)) x)))"
    if inv: "timer_inv l"
  proof (intro allI impI)
    fix x
    assume "heap_min (timer_heap l) = Some x \<and> timeout (handles l x) \<le> time l"
    then have hm: "heap_min (timer_heap l) = Some x" and d: "timeout (handles l x) \<le> time l"
      by blast+
    note a = run_step [OF inv hm d, of cbs fired]
    note b = run_rearm [OF inv hm]
    show "(x \<notin> set (timer_heap (snd (uv_timer_stop l x))) \<and>
          \<not> uv__is_active (handles (snd (uv_timer_stop l x)) x) \<and>
          time (snd (uv_timer_stop l x)) = time l \<and>
          time (snd (uv_timer_again (snd (uv_timer_stop l x)) x)) = time l \<and>
          (\<exists>c. timer_cb (handles l x) = Some c \<and>
               timer_cb (handles (snd (uv_timer_again (snd (uv_timer_stop l x)) x)) x) = Some c \<and>
               run_timers_from cbs l fired =
                 run_timers_from cbs
                   (cbs c x (snd (uv_timer_again (snd (uv_timer_stop l x)) x))) (fired @ [x]))) \<and>
         ((repeat (handles l x) \<noteq> 0 \<longrightarrow>
            snd (uv_timer_again (snd (uv_timer_stop l x)) x) =
              snd (uv_timer_start (snd (uv_timer_stop l x)) x (timer_cb (handles l x))
                     (repeat (handles l x)) (repeat (handles l x))) \<and>
            x \<in> set (timer_heap (snd (uv_timer_again (snd (uv_timer_stop l x)) x))) \<and>
            uv__is_active (handles (snd (uv_timer_again (snd (uv_timer_stop l x)) x)) x) \<and>
            timeout (handles (snd (uv_timer_again (snd (uv_timer_stop l x)) x)) x) = rearmed l x \<and>
            (time l \<noteq> - 1 \<longrightarrow>
               time l < timeout (handles (snd (uv_timer_again (snd (uv_timer_stop l x)) x)) x))) \<and>
          (repeat (handles l x) = 0 \<longrightarrow>
            snd (uv_timer_again (snd (uv_timer_stop l x)) x) = snd (uv_timer_stop l x)) \<and>
          repeat (handles (snd (uv_timer_again (snd (uv_timer_stop l x)) x)) x) =
            repeat (handles l x) \<and>
          (\<forall>h. h \<noteq> x \<longrightarrow>
            handles (snd (uv_timer_again (snd (uv_timer_stop l x)) x)) h = handles l h) \<and>
          set (timer_heap (snd (uv_timer_again (snd (uv_timer_stop l x)) x))) - {x} =
            set (timer_heap l) - {x} \<and>
          timer_inv (snd (uv_timer_again (snd (uv_timer_stop l x)) x)))"
      using a b by (rule conjI)
  qed
qed

theorem uv__run_timers_protocol_witness:
  "timer_inv drifted \<and> start_id_inv drifted \<and> heap_min (timer_heap drifted) = Some 3 \<and>
   timeout (handles drifted 3) \<le> time drifted \<and> repeat (handles drifted 3) \<noteq> 0 \<and>
   time drifted \<noteq> - 1 \<and>
   3 \<notin> set (timer_heap (snd (uv_timer_stop drifted 3))) \<and>
   \<not> uv__is_active (handles (snd (uv_timer_stop drifted 3)) 3) \<and>
   time (snd (uv_timer_again (snd (uv_timer_stop drifted 3)) 3)) = time drifted \<and>
   3 \<in> set (timer_heap (snd (uv_timer_again (snd (uv_timer_stop drifted 3)) 3))) \<and>
   uv__is_active (handles (snd (uv_timer_again (snd (uv_timer_stop drifted 3)) 3)) 3) \<and>
   timeout (handles (snd (uv_timer_again (snd (uv_timer_stop drifted 3)) 3)) 3) = 45 \<and>
   time drifted < timeout (handles (snd (uv_timer_again (snd (uv_timer_stop drifted 3)) 3)) 3) \<and>
   run_timers_from cb_noop drifted [] =
     run_timers_from cb_noop
       (cb_noop 1 3 (snd (uv_timer_again (snd (uv_timer_stop drifted 3)) 3))) [3] \<and>
   run_timers_from cb_noop (loop_at 0) [] = Some (Inr ([], loop_at 0))"
proof -
  have hm: "heap_min (timer_heap drifted) = Some 3" by (simp add: drifted_eval heap_min_def)
  have d: "timeout (handles drifted 3) \<le> time drifted" by (simp add: drifted_eval)
  have c: "timer_cb (handles drifted 3) = Some 1" by (simp add: drifted_eval)
  have rp: "repeat (handles drifted 3) \<noteq> 0" by (simp add: drifted_eval)
  have nm: "time drifted \<noteq> - 1" by (simp add: drifted_eval)
  have re: "rearmed drifted 3 = 45" by (simp add: rearmed_def drifted_eval)
  have e: "timer_heap (loop_at 0) = []" by (simp add: loop_at_def)
  note t1 = uv__run_timers_protocol [of cb_noop drifted "[]", THEN conjunct2, THEN conjunct2,
      THEN conjunct2, THEN conjunct2, rule_format, OF timer_inv_drifted]
  note t2 = uv__run_timers_protocol [of cb_noop "loop_at 0" "[]", THEN conjunct2, THEN conjunct1,
      rule_format]
  note st = t1 [THEN conjunct2, rule_format, OF conjI [OF hm d]]
  have s: "3 \<notin> set (timer_heap (snd (uv_timer_stop drifted 3))) \<and>
        \<not> uv__is_active (handles (snd (uv_timer_stop drifted 3)) 3) \<and>
        time (snd (uv_timer_stop drifted 3)) = time drifted \<and>
        time (snd (uv_timer_again (snd (uv_timer_stop drifted 3)) 3)) = time drifted \<and>
        (\<exists>c. timer_cb (handles drifted 3) = Some c \<and>
             timer_cb (handles (snd (uv_timer_again (snd (uv_timer_stop drifted 3)) 3)) 3) = Some c \<and>
             run_timers_from cb_noop drifted [] =
               run_timers_from cb_noop
                 (cb_noop c 3 (snd (uv_timer_again (snd (uv_timer_stop drifted 3)) 3))) ([] @ [3]))"
    using st by (rule conjunct1)
  then have r: "run_timers_from cb_noop drifted [] =
     run_timers_from cb_noop
       (cb_noop 1 3 (snd (uv_timer_again (snd (uv_timer_stop drifted 3)) 3))) [3]"
    using c by auto
  have ra: "3 \<in> set (timer_heap (snd (uv_timer_again (snd (uv_timer_stop drifted 3)) 3))) \<and>
      uv__is_active (handles (snd (uv_timer_again (snd (uv_timer_stop drifted 3)) 3)) 3) \<and>
      timeout (handles (snd (uv_timer_again (snd (uv_timer_stop drifted 3)) 3)) 3) =
        rearmed drifted 3 \<and>
      time drifted < timeout (handles (snd (uv_timer_again (snd (uv_timer_stop drifted 3)) 3)) 3)"
    using st [THEN conjunct2, THEN conjunct1, rule_format, OF rp] nm by blast
  have z: "run_timers_from cb_noop (loop_at 0) [] = Some (Inr ([], loop_at 0))"
    using t2 e by blast
  show ?thesis
    using timer_inv_drifted start_id_inv_drifted hm d rp nm s r ra z unfolding re by blast
qed

text \<open>
  C2. \<^verbatim>\<open>uv__next_timeout\<close> returns -1 exactly when the heap is empty; 0 when the heap
  minimum's timeout is at or before the cached loop time; otherwise the difference between
  that timeout and the loop time, clamped to \<^verbatim>\<open>INT_MAX\<close>, which is positive. The result
  never exceeds \<^verbatim>\<open>INT_MAX\<close>. In a consistent loop the heap minimum has the least timeout
  in the heap.
\<close>

theorem uv__next_timeout_spec:
  "(uv__next_timeout l = - 1 \<longleftrightarrow> timer_heap l = []) \<and>
   (\<forall>x. heap_min (timer_heap l) = Some x \<longrightarrow>
      (timeout (handles l x) \<le> time l \<longrightarrow> uv__next_timeout l = 0) \<and>
      (time l < timeout (handles l x) \<longrightarrow>
         uv__next_timeout l =
           min (int (unat (timeout (handles l x))) - int (unat (time l))) INT_MAX \<and>
         0 < uv__next_timeout l)) \<and>
   uv__next_timeout l \<le> INT_MAX \<and>
   (timer_inv l \<longrightarrow>
      (\<forall>x. heap_min (timer_heap l) = Some x \<longrightarrow>
         (\<forall>y\<in>set (timer_heap l). timeout (handles l x) \<le> timeout (handles l y))))"
proof (intro conjI)
  have pos: "\<And>x. heap_min (timer_heap l) = Some x \<Longrightarrow> time l < timeout (handles l x) \<Longrightarrow>
      uv__next_timeout l =
           min (int (unat (timeout (handles l x))) - int (unat (time l))) INT_MAX \<and>
         0 < uv__next_timeout l"
    by (rule uv__next_timeout_positive)
  have zero: "\<And>x. heap_min (timer_heap l) = Some x \<Longrightarrow> timeout (handles l x) \<le> time l \<Longrightarrow>
      uv__next_timeout l = 0"
    by (simp add: uv__next_timeout_def)
  show "uv__next_timeout l = - 1 \<longleftrightarrow> timer_heap l = []"
  proof (cases "heap_min (timer_heap l)")
    case None
    then have "timer_heap l = []" by (simp add: heap_min_None)
    moreover have "uv__next_timeout l = - 1" using None by (simp add: uv__next_timeout_def)
    ultimately show ?thesis by simp
  next
    case (Some x)
    then have ne: "timer_heap l \<noteq> []" by (simp add: heap_min_Some)
    have "uv__next_timeout l \<noteq> - 1"
    proof (cases "time l < timeout (handles l x)")
      case True
      then show ?thesis using pos [OF Some] by simp
    next
      case False
      then show ?thesis using zero [OF Some] by (simp add: not_less)
    qed
    then show ?thesis using ne by simp
  qed
  show "\<forall>x. heap_min (timer_heap l) = Some x \<longrightarrow>
      (timeout (handles l x) \<le> time l \<longrightarrow> uv__next_timeout l = 0) \<and>
      (time l < timeout (handles l x) \<longrightarrow>
         uv__next_timeout l =
           min (int (unat (timeout (handles l x))) - int (unat (time l))) INT_MAX \<and>
         0 < uv__next_timeout l)"
    using pos zero by blast
  show "uv__next_timeout l \<le> INT_MAX"
  proof (cases "heap_min (timer_heap l)")
    case None
    then show ?thesis by (simp add: uv__next_timeout_def INT_MAX_def)
  next
    case (Some x)
    show ?thesis
    proof (cases "time l < timeout (handles l x)")
      case True
      then show ?thesis using pos [OF Some] by simp
    next
      case False
      then show ?thesis using zero [OF Some] by (simp add: not_less INT_MAX_def)
    qed
  qed
  show "timer_inv l \<longrightarrow>
      (\<forall>x. heap_min (timer_heap l) = Some x \<longrightarrow>
         (\<forall>y\<in>set (timer_heap l). timeout (handles l x) \<le> timeout (handles l y)))"
  proof (intro impI allI ballI)
    fix x y
    assume inv: "timer_inv l" and hm: "heap_min (timer_heap l) = Some x"
      and y: "y \<in> set (timer_heap l)"
    have ok: "heap_ok (tkey (handles l)) (timer_heap l)" using inv by (simp add: timer_inv_def)
    have "tkey (handles l) x \<le> tkey (handles l) y" using ok hm y by (rule heap_min_least)
    then show "timeout (handles l x) \<le> timeout (handles l y)"
      by (auto simp: tkey_def less_eq_prod_def)
  qed
qed

theorem uv__next_timeout_spec_witness:
  "uv__next_timeout (loop_at 0) = - 1 \<and> uv__next_timeout one_timer = 10 \<and>
   uv__next_timeout drifted = 0 \<and> timer_inv one_timer"
proof -
  have e: "timer_heap (loop_at 0) = []" by (simp add: loop_at_def)
  have a: "uv__next_timeout (loop_at 0) = - 1"
    using uv__next_timeout_spec [of "loop_at 0"] e by blast
  have hm: "heap_min (timer_heap one_timer) = Some 3" by (simp add: one_timer_eval heap_min_def)
  have lt: "time one_timer < timeout (handles one_timer 3)" by (simp add: one_timer_eval)
  have "uv__next_timeout one_timer =
      min (int (unat (timeout (handles one_timer 3))) - int (unat (time one_timer))) INT_MAX"
    using uv__next_timeout_spec [of one_timer] hm lt by blast
  then have b: "uv__next_timeout one_timer = 10" by (simp add: one_timer_eval INT_MAX_def)
  have hm': "heap_min (timer_heap drifted) = Some 3" by (simp add: drifted_eval heap_min_def)
  have d: "timeout (handles drifted 3) \<le> time drifted" by (simp add: drifted_eval)
  have c: "uv__next_timeout drifted = 0"
    using uv__next_timeout_spec [of drifted] hm' d by blast
  show ?thesis using a b c timer_inv_one_timer by blast
qed

text \<open>
  C3, as stated, fails once the 64-bit counter has wrapped around: in the loop
  \<open>counter_at_max\<close> handle 3 is in the heap with \<open>start_id\<close> 0 and the counter is
  \<open>2^64 - 1\<close>; two successful calls of \<^verbatim>\<open>uv_timer_start\<close> later the counter has passed
  0 again and handle 7 carries the \<open>start_id\<close> 0 as well, with the same timeout. Neither
  of the two orders before the other, and they come out of the heap one after the other
  with equal timeouts and equal start_ids.
\<close>

theorem timer_counter_wrap_counterexample:
  "timer_inv counter_at_max \<and> start_id_inv counter_at_max \<and>
   timer_counter counter_at_max = - 1 \<and>
   fst (uv_timer_start counter_at_max 5 (Some 1) 10 0) = 0 \<and>
   fst (uv_timer_start (snd (uv_timer_start counter_at_max 5 (Some 1) 10 0)) 7 (Some 1) 10 0) = 0 \<and>
   counter_wrapped =
     snd (uv_timer_start (snd (uv_timer_start counter_at_max 5 (Some 1) 10 0)) 7 (Some 1) 10 0) \<and>
   timer_inv counter_wrapped \<and> timer_heap counter_wrapped = [3, 5, 7] \<and>
   timeout (handles counter_wrapped 3) = timeout (handles counter_wrapped 7) \<and>
   start_id (handles counter_wrapped 3) = start_id (handles counter_wrapped 7) \<and>
   \<not> timer_less_than (handles counter_wrapped) 3 7 \<and>
   \<not> timer_less_than (handles counter_wrapped) 7 3 \<and>
   extract_all (timer_less_than (handles counter_wrapped)) (timer_heap counter_wrapped) =
     [3, 7, 5] \<and>
   \<not> sorted_wrt (timer_less_than (handles counter_wrapped))
     (extract_all (timer_less_than (handles counter_wrapped)) (timer_heap counter_wrapped)) \<and>
   \<not> start_id_inv counter_wrapped"
proof -
  have n1: "\<not> timer_less_than (handles counter_wrapped) 3 7"
    by (simp add: timer_less_than_def counter_wrapped_eval)
  have n2: "\<not> timer_less_than (handles counter_wrapped) 7 3"
    by (simp add: timer_less_than_def counter_wrapped_eval)
  have e: "timeout (handles counter_wrapped 3) = timeout (handles counter_wrapped 7)"
    "start_id (handles counter_wrapped 3) = start_id (handles counter_wrapped 7)"
    by (simp_all add: counter_wrapped_eval)
  have ns: "\<not> sorted_wrt (timer_less_than (handles counter_wrapped))
     (extract_all (timer_less_than (handles counter_wrapped)) (timer_heap counter_wrapped))"
    unfolding counter_wrapped_extract using n1 by simp
  have ni: "\<not> start_id_inv counter_wrapped"
    by (simp add: start_id_inv_def counter_wrapped_eval)
  show ?thesis
    using timer_inv_counter_at_max start_id_inv_counter_at_max counter_at_max_eval(2)
      counter_wrapped_started counter_wrapped_def timer_inv_counter_wrapped
      counter_wrapped_eval(1) e n1 n2 counter_wrapped_extract ns ni
    by (intro conjI)
qed

text \<open>
  C3 (amended). In a consistent loop, extracting the heap minimum again and again, removing
  each, yields every handle of the heap once, in non-decreasing order of the pair
  (timeout, start_id): no handle orders before an earlier one, timeouts never decrease and
  where two timeouts tie the start_ids do not decrease. \<^verbatim>\<open>timer_less_than\<close> is
  irreflexive, asymmetric and transitive, and it orders any two handles with different
  start_ids. When moreover the start_ids of the handles in the heap are below the counter
  and pairwise distinct (the counter has not wrapped around since the oldest of them was
  started), each extracted handle is strictly before all later ones, start_ids strictly
  increase where timeouts tie, and the comparator is a strict total order on the handles of
  the heap. \<^verbatim>\<open>uv_timer_start\<close> keeps that as long as the counter is below \<open>2^64 - 1\<close>:
  the started handle gets the counter's value, above the start_id of every other handle in
  the heap, and the counter increases by one. \<^verbatim>\<open>uv_timer_start\<close> always keeps the loop
  consistent.
\<close>

theorem timer_heap_total_order:
  "timer_inv l \<longrightarrow>
     mset (extract_all (timer_less_than (handles l)) (timer_heap l)) = mset (timer_heap l) \<and>
     sorted_wrt (\<lambda>a b. \<not> timer_less_than (handles l) b a) (extract_all (timer_less_than (handles l)) (timer_heap l)) \<and>
     (\<forall>i j. i < j \<and> j < length (extract_all (timer_less_than (handles l)) (timer_heap l)) \<longrightarrow>
        timeout (handles l (extract_all (timer_less_than (handles l)) (timer_heap l) ! i)) \<le> timeout (handles l (extract_all (timer_less_than (handles l)) (timer_heap l) ! j)) \<and>
        (timeout (handles l (extract_all (timer_less_than (handles l)) (timer_heap l) ! i)) = timeout (handles l (extract_all (timer_less_than (handles l)) (timer_heap l) ! j)) \<longrightarrow>
         start_id (handles l (extract_all (timer_less_than (handles l)) (timer_heap l) ! i)) \<le> start_id (handles l (extract_all (timer_less_than (handles l)) (timer_heap l) ! j)))) \<and>
     (\<forall>a b c.
        \<not> timer_less_than (handles l) a a \<and>
        (timer_less_than (handles l) a b \<longrightarrow> \<not> timer_less_than (handles l) b a) \<and>
        (timer_less_than (handles l) a b \<and> timer_less_than (handles l) b c \<longrightarrow>
           timer_less_than (handles l) a c) \<and>
        (start_id (handles l a) \<noteq> start_id (handles l b) \<longrightarrow>
           timer_less_than (handles l) a b \<or> timer_less_than (handles l) b a)) \<and>
     (start_id_inv l \<longrightarrow>
        sorted_wrt (timer_less_than (handles l)) (extract_all (timer_less_than (handles l)) (timer_heap l)) \<and>
        (\<forall>i j. i < j \<and> j < length (extract_all (timer_less_than (handles l)) (timer_heap l)) \<and>
           timeout (handles l (extract_all (timer_less_than (handles l)) (timer_heap l) ! i)) = timeout (handles l (extract_all (timer_less_than (handles l)) (timer_heap l) ! j)) \<longrightarrow>
           start_id (handles l (extract_all (timer_less_than (handles l)) (timer_heap l) ! i)) < start_id (handles l (extract_all (timer_less_than (handles l)) (timer_heap l) ! j))) \<and>
        (\<forall>a\<in>set (timer_heap l). \<forall>b\<in>set (timer_heap l). a \<noteq> b \<longrightarrow>
           start_id (handles l a) \<noteq> start_id (handles l b) \<and>
           (timer_less_than (handles l) a b \<or> timer_less_than (handles l) b a)) \<and>
        (timer_counter l \<noteq> - 1 \<longrightarrow> start_id_inv (snd (uv_timer_start l h cb tmo rep))) \<and>
        (cb \<noteq> None \<and> \<not> uv__is_closing (handles l h) \<and> timer_counter l \<noteq> - 1 \<longrightarrow>
           start_id (handles (snd (uv_timer_start l h cb tmo rep)) h) = timer_counter l \<and>
           timer_counter (snd (uv_timer_start l h cb tmo rep)) = timer_counter l + 1 \<and>
           timer_counter l < timer_counter (snd (uv_timer_start l h cb tmo rep)) \<and>
           (\<forall>y\<in>set (timer_heap (snd (uv_timer_start l h cb tmo rep))). y \<noteq> h \<longrightarrow>
              start_id (handles (snd (uv_timer_start l h cb tmo rep)) y) < start_id (handles (snd (uv_timer_start l h cb tmo rep)) h)))) \<and>
     timer_inv (snd (uv_timer_start l h cb tmo rep))"
proof (intro impI conjI)
  assume inv: "timer_inv l"
  let ?lt = "timer_less_than (handles l)"
  let ?out = "extract_all ?lt (timer_heap l)"
  note ex = extract_all_sorted_le [OF inv]
  show "mset ?out = mset (timer_heap l)" using ex by blast
  show "sorted_wrt (\<lambda>a b. \<not> ?lt b a) ?out" using ex by blast
  show "\<forall>i j. i < j \<and> j < length ?out \<longrightarrow>
        timeout (handles l (?out ! i)) \<le> timeout (handles l (?out ! j)) \<and>
        (timeout (handles l (?out ! i)) = timeout (handles l (?out ! j)) \<longrightarrow>
         start_id (handles l (?out ! i)) \<le> start_id (handles l (?out ! j)))"
  proof (intro allI impI)
    fix i j assume "i < j \<and> j < length ?out"
    then have "\<not> ?lt (?out ! j) (?out ! i)" using ex by (simp add: sorted_wrt_iff_nth_less)
    then show "timeout (handles l (?out ! i)) \<le> timeout (handles l (?out ! j)) \<and>
        (timeout (handles l (?out ! i)) = timeout (handles l (?out ! j)) \<longrightarrow>
         start_id (handles l (?out ! i)) \<le> start_id (handles l (?out ! j)))"
      by (auto simp: timer_less_than_order(5) not_less)
  qed
  show "\<forall>a b c.
        \<not> ?lt a a \<and> (?lt a b \<longrightarrow> \<not> ?lt b a) \<and> (?lt a b \<and> ?lt b c \<longrightarrow> ?lt a c) \<and>
        (start_id (handles l a) \<noteq> start_id (handles l b) \<longrightarrow> ?lt a b \<or> ?lt b a)"
  proof (intro allI conjI impI)
    fix a b c
    show "\<not> ?lt a a" by (rule timer_less_than_order(1))
    show "\<not> ?lt b a" if "?lt a b" using that by (rule timer_less_than_order(2))
    show "?lt a c" if "?lt a b \<and> ?lt b c"
      using that timer_less_than_order(3) by blast
    show "?lt a b \<or> ?lt b a" if "start_id (handles l a) \<noteq> start_id (handles l b)"
      using that by (rule timer_less_than_order(4))
  qed
  show "timer_inv (snd (uv_timer_start l h cb tmo rep))" using inv by (rule timer_inv_start)
  show "sorted_wrt ?lt ?out" if ids: "start_id_inv l"
    using extract_all_sorted [OF inv ids] by blast
  show "\<forall>i j. i < j \<and> j < length ?out \<and>
           timeout (handles l (?out ! i)) = timeout (handles l (?out ! j)) \<longrightarrow>
           start_id (handles l (?out ! i)) < start_id (handles l (?out ! j))"
    if ids: "start_id_inv l"
  proof (intro allI impI)
    fix i j
    assume h: "i < j \<and> j < length ?out \<and>
           timeout (handles l (?out ! i)) = timeout (handles l (?out ! j))"
    then have "?lt (?out ! i) (?out ! j)"
      using extract_all_sorted [OF inv ids] by (simp add: sorted_wrt_iff_nth_less)
    then show "start_id (handles l (?out ! i)) < start_id (handles l (?out ! j))"
      using h by (auto simp: timer_less_than_order(5))
  qed
  show "\<forall>a\<in>set (timer_heap l). \<forall>b\<in>set (timer_heap l). a \<noteq> b \<longrightarrow>
           start_id (handles l a) \<noteq> start_id (handles l b) \<and> (?lt a b \<or> ?lt b a)"
    if ids: "start_id_inv l"
  proof (intro ballI impI)
    fix a b assume ab: "a \<in> set (timer_heap l)" "b \<in> set (timer_heap l)" "a \<noteq> b"
    have i: "inj_on (\<lambda>h. start_id (handles l h)) (set (timer_heap l))"
      using ids by (simp add: start_id_inv_def)
    have ne: "start_id (handles l a) \<noteq> start_id (handles l b)"
      using i ab by (auto dest: inj_onD)
    then have "?lt a b \<or> ?lt b a" by (rule timer_less_than_order(4))
    then show "start_id (handles l a) \<noteq> start_id (handles l b) \<and> (?lt a b \<or> ?lt b a)"
      using ne by (rule conjI [rotated])
  qed
  show "start_id_inv (snd (uv_timer_start l h cb tmo rep))" if ids: "start_id_inv l" and nw: "timer_counter l \<noteq> - 1"
  proof -
    have "heap_active_inv l" using inv by (simp add: timer_inv_def)
    then show ?thesis using ids nw by (rule start_id_inv_start)
  qed
  show "start_id (handles (snd (uv_timer_start l h cb tmo rep)) h) = timer_counter l"
    if ids: "start_id_inv l"
      and ok: "cb \<noteq> None \<and> \<not> uv__is_closing (handles l h) \<and> timer_counter l \<noteq> - 1"
    using inv ids ok by (rule uv_timer_start_fresh(1))
  show "timer_counter (snd (uv_timer_start l h cb tmo rep)) = timer_counter l + 1"
    if ids: "start_id_inv l"
      and ok: "cb \<noteq> None \<and> \<not> uv__is_closing (handles l h) \<and> timer_counter l \<noteq> - 1"
    using inv ids ok by (rule uv_timer_start_fresh(2))
  show "timer_counter l < timer_counter (snd (uv_timer_start l h cb tmo rep))"
    if ids: "start_id_inv l"
      and ok: "cb \<noteq> None \<and> \<not> uv__is_closing (handles l h) \<and> timer_counter l \<noteq> - 1"
    using inv ids ok by (rule uv_timer_start_fresh(3))
  show "\<forall>y\<in>set (timer_heap (snd (uv_timer_start l h cb tmo rep))). y \<noteq> h \<longrightarrow>
              start_id (handles (snd (uv_timer_start l h cb tmo rep)) y) < start_id (handles (snd (uv_timer_start l h cb tmo rep)) h)"
    if ids: "start_id_inv l"
      and ok: "cb \<noteq> None \<and> \<not> uv__is_closing (handles l h) \<and> timer_counter l \<noteq> - 1"
    using inv ids ok by (rule uv_timer_start_fresh(4))
qed

theorem timer_heap_total_order_witness:
  "timer_inv three_timers \<and> start_id_inv three_timers \<and> timer_heap three_timers = [5, 3, 7] \<and>
   extract_all (timer_less_than (handles three_timers)) (timer_heap three_timers) = [5, 7, 3] \<and>
   sorted_wrt (timer_less_than (handles three_timers)) [5, 7, 3] \<and>
   timer_inv two_timers \<and> start_id_inv two_timers \<and> timer_heap two_timers = [3, 5] \<and>
   timer_counter two_timers \<noteq> - 1 \<and>
   timeout (handles two_timers 3) = timeout (handles two_timers 5) \<and>
   sorted_wrt (timer_less_than (handles two_timers))
     (extract_all (timer_less_than (handles two_timers)) (timer_heap two_timers)) \<and>
   mset (extract_all (timer_less_than (handles two_timers)) (timer_heap two_timers)) =
     mset (timer_heap two_timers) \<and>
   timer_less_than (handles two_timers) 3 5 \<and> \<not> timer_less_than (handles two_timers) 5 3 \<and>
   start_id (handles (snd (uv_timer_start two_timers 7 (Some 1) 0 0)) 7) = 2 \<and>
   timer_counter (snd (uv_timer_start two_timers 7 (Some 1) 0 0)) = 3 \<and>
   start_id_inv (snd (uv_timer_start two_timers 7 (Some 1) 0 0)) \<and>
   timer_inv (snd (uv_timer_start two_timers 7 (Some 1) 0 0))"
proof -
  note t = timer_heap_total_order [of two_timers 7 "Some 1" 0 0, THEN mp,
      OF timer_inv_two_timers]
  note u = timer_heap_total_order [of three_timers 7 "Some 1" 0 0, THEN mp,
      OF timer_inv_three_timers]
  note t1 = t [THEN conjunct1]
  note t4 = t [THEN conjunct2, THEN conjunct2, THEN conjunct2, THEN conjunct1]
  note t5 = t [THEN conjunct2, THEN conjunct2, THEN conjunct2, THEN conjunct2, THEN conjunct1,
      THEN mp, OF start_id_inv_two_timers]
  note t6 = t [THEN conjunct2, THEN conjunct2, THEN conjunct2, THEN conjunct2, THEN conjunct2]
  note u5 = u [THEN conjunct2, THEN conjunct2, THEN conjunct2, THEN conjunct2, THEN conjunct1,
      THEN mp, OF start_id_inv_three_timers]
  have nw: "timer_counter two_timers \<noteq> - 1" by (simp add: two_timers_eval)
  have lt: "timer_less_than (handles two_timers) 3 5"
    by (simp add: timer_less_than_def two_timers_eval)
  have n: "\<not> timer_less_than (handles two_timers) 5 3" using t4 lt by blast
  have c: "Some (1::nat) \<noteq> None \<and> \<not> uv__is_closing (handles two_timers 7) \<and>
      timer_counter two_timers \<noteq> - 1"
    using nw
    by (simp add: two_timers_def one_timer_def uv_timer_start_def loop_at_def handle_zero_def
        Let_def set_handle_def uv__is_closing_def uv__is_active_def uv__handle_start_def)
  note t9 = t5 [THEN conjunct2, THEN conjunct2, THEN conjunct2, THEN conjunct2, THEN mp, OF c]
  have s: "start_id (handles (snd (uv_timer_start two_timers 7 (Some 1) 0 0)) 7) = 2"
    using t9 [THEN conjunct1] by (simp add: two_timers_eval)
  have k: "timer_counter (snd (uv_timer_start two_timers 7 (Some 1) 0 0)) = 3"
    using t9 [THEN conjunct2, THEN conjunct1] by (simp add: two_timers_eval)
  have si: "start_id_inv (snd (uv_timer_start two_timers 7 (Some 1) 0 0))"
    using t5 [THEN conjunct2, THEN conjunct2, THEN conjunct2, THEN conjunct1] nw by (rule mp)
  have e: "timeout (handles two_timers 3) = timeout (handles two_timers 5)"
    by (simp add: two_timers_eval)
  have "sorted_wrt (timer_less_than (handles three_timers))
     (extract_all (timer_less_than (handles three_timers)) (timer_heap three_timers))"
    using u5 by (rule conjunct1)
  then have srt: "sorted_wrt (timer_less_than (handles three_timers)) [5, 7, 3]"
    by (simp only: three_timers_extract)
  have srt2: "sorted_wrt (timer_less_than (handles two_timers))
     (extract_all (timer_less_than (handles two_timers)) (timer_heap two_timers))"
    using t5 by (rule conjunct1)
  show ?thesis
    using timer_inv_three_timers start_id_inv_three_timers three_timers_eval(1)
      three_timers_extract srt timer_inv_two_timers start_id_inv_two_timers two_timers_eval(1)
      nw e srt2 t1 lt n s k si t6
    by (intro conjI)
qed

text \<open>
  C4, as stated for every operation, fails: \<^verbatim>\<open>uv_timer_init\<close> on an active handle clears
  the active flag and leaves the node in the heap.
\<close>

theorem uv_timer_init_counterexample:
  "heap_active_inv one_timer \<and> \<not> heap_active_inv (snd (uv_timer_init one_timer 3))"
proof -
  have a: "heap_active_inv one_timer" using timer_inv_one_timer by (simp add: timer_inv_def)
  have "3 \<in> set (timer_heap (snd (uv_timer_init one_timer 3)))"
    by (simp add: uv_timer_init_def set_handle_def one_timer_eval)
  moreover have "\<not> uv__is_active (handles (snd (uv_timer_init one_timer 3)) 3)"
    by (simp add: uv_timer_init_def set_handle_def uv__handle_init_def uv__is_active_def)
  ultimately have "\<not> heap_active_inv (snd (uv_timer_init one_timer 3))"
    unfolding heap_active_inv_def by blast
  then show ?thesis using a by blast
qed

text \<open>
  C4 (amended). The invariant "a handle is linked into the heap exactly when it is active"
  is preserved by \<^verbatim>\<open>uv_timer_start\<close>, \<^verbatim>\<open>uv_timer_stop\<close>, \<^verbatim>\<open>uv_timer_again\<close>,
  \<^verbatim>\<open>uv__timer_close\<close> and \<^verbatim>\<open>uv_timer_set_repeat\<close> on any handle, by
  \<^verbatim>\<open>uv_timer_init\<close> on a handle that is not linked into the heap, and by
  \<^verbatim>\<open>uv__run_timers\<close> when the callbacks it invokes preserve it. A successful start leaves
  the handle in the heap and active; a stop leaves it out of the heap and inactive.
\<close>

theorem heap_active_inv_preserved:
  "heap_active_inv l \<longrightarrow>
     heap_active_inv (snd (uv_timer_start l h cb tmo rep)) \<and>
     heap_active_inv (snd (uv_timer_stop l h)) \<and>
     heap_active_inv (snd (uv_timer_again l h)) \<and>
     heap_active_inv (uv__timer_close l h) \<and>
     heap_active_inv (uv_timer_set_repeat l h rep) \<and>
     (h \<notin> set (timer_heap l) \<longrightarrow> heap_active_inv (snd (uv_timer_init l h))) \<and>
     ((\<forall>c x s. heap_active_inv s \<longrightarrow> heap_active_inv (cbs c x s)) \<longrightarrow>
        (\<forall>tr l'. uv__run_timers cbs l = Some (Inr (tr, l')) \<longrightarrow> heap_active_inv l')) \<and>
     (cb \<noteq> None \<and> \<not> uv__is_closing (handles l h) \<longrightarrow>
        h \<in> set (timer_heap (snd (uv_timer_start l h cb tmo rep))) \<and>
        uv__is_active (handles (snd (uv_timer_start l h cb tmo rep)) h)) \<and>
     h \<notin> set (timer_heap (snd (uv_timer_stop l h))) \<and>
     \<not> uv__is_active (handles (snd (uv_timer_stop l h)) h)"
proof (intro impI conjI)
  assume a: "heap_active_inv l"
  show "heap_active_inv (snd (uv_timer_start l h cb tmo rep))" using a by (rule heap_active_inv_start)
  show "heap_active_inv (snd (uv_timer_stop l h))" using a by (rule heap_active_inv_stop)
  show "heap_active_inv (snd (uv_timer_again l h))" using a by (rule heap_active_inv_again)
  show "heap_active_inv (uv__timer_close l h)"
    unfolding uv__timer_close_def using a by (rule heap_active_inv_stop)
  show "heap_active_inv (uv_timer_set_repeat l h rep)" using a by (rule heap_active_inv_set_repeat)
  show "heap_active_inv (snd (uv_timer_init l h))" if "h \<notin> set (timer_heap l)"
    using a that by (rule heap_active_inv_init)
  show "\<forall>tr l'. uv__run_timers cbs l = Some (Inr (tr, l')) \<longrightarrow> heap_active_inv l'"
    if k: "\<forall>c x s. heap_active_inv s \<longrightarrow> heap_active_inv (cbs c x s)"
  proof (intro allI impI)
    fix tr l'
    assume "uv__run_timers cbs l = Some (Inr (tr, l'))"
    then have r: "run_timers_from cbs l [] = Some (Inr (tr, l'))" by (simp add: uv__run_timers_def)
    show "heap_active_inv l'"
    proof (rule run_preserves [where Q = heap_active_inv, OF r a])
      show "\<And>s x. heap_active_inv s \<Longrightarrow> heap_active_inv (snd (uv_timer_stop s x))"
        by (rule heap_active_inv_stop)
      show "\<And>s x. heap_active_inv s \<Longrightarrow> heap_active_inv (snd (uv_timer_again s x))"
        by (rule heap_active_inv_again)
      show "\<And>c x s. heap_active_inv s \<Longrightarrow> heap_active_inv (cbs c x s)"
        using k by blast
    qed
  qed
  show "h \<notin> set (timer_heap (snd (uv_timer_stop l h)))" using a by (rule not_in_heap_after_stop)
  show "\<not> uv__is_active (handles (snd (uv_timer_stop l h)) h)"
    by (simp add: handles_uv_timer_stop uv__is_active_def)
  show "uv__is_active (handles (snd (uv_timer_start l h cb tmo rep)) h)"
    if "cb \<noteq> None \<and> \<not> uv__is_closing (handles l h)"
    using that by (simp add: uv_timer_start_fields(4) started_def uv__is_active_def)
  then show "h \<in> set (timer_heap (snd (uv_timer_start l h cb tmo rep)))"
    if "cb \<noteq> None \<and> \<not> uv__is_closing (handles l h)"
    using that heap_active_inv_start [OF a, of h cb tmo rep]
    by (simp add: heap_active_inv_def)
qed

theorem heap_active_inv_preserved_witness:
  "heap_active_inv (loop_at 0) \<and> heap_active_inv one_timer \<and>
   3 \<in> set (timer_heap one_timer) \<and> uv__is_active (handles one_timer 3) \<and>
   heap_active_inv (snd (uv_timer_stop one_timer 3)) \<and>
   3 \<notin> set (timer_heap (snd (uv_timer_stop one_timer 3))) \<and>
   heap_active_inv (snd (uv_timer_init (loop_at 0) 3))"
proof -
  have c: "Some (1::nat) \<noteq> None \<and> \<not> uv__is_closing (handles (loop_at 0) 3)"
    by (simp add: loop_at_def handle_zero_def uv__is_closing_def)
  have n: "3 \<notin> set (timer_heap (loop_at 0))" by (simp add: loop_at_def)
  note t0 = heap_active_inv_preserved [of "loop_at 0" 3 "Some 1" 10 10 cb_noop, rule_format,
      OF heap_active_inv_loop_at, folded one_timer_def]
  have o: "heap_active_inv one_timer" using t0 by blast
  note t1 = heap_active_inv_preserved [of one_timer 3 "Some 1" 10 10 cb_noop, rule_format, OF o]
  show ?thesis using heap_active_inv_loop_at o t0 t1 c n by blast
qed

text \<open>
  C5. For every delay, \<^verbatim>\<open>uv_timer_start\<close> (when it succeeds) sets the deadline to loop time
  plus delay, and to the largest 64-bit value when that sum overflows: read as a number, the
  deadline is the minimum of the true sum and \<open>2^64 - 1\<close>, so it is never below the loop
  time nor below the delay. With the largest delay and a positive loop time the deadline is
  the largest value.
\<close>

theorem uv_timer_start_saturates:
  "cb \<noteq> None \<and> \<not> uv__is_closing (handles l h) \<longrightarrow>
     fst (uv_timer_start l h cb d rep) = 0 \<and>
     unat (timeout (handles (snd (uv_timer_start l h cb d rep)) h)) =
       min (unat (time l) + unat d) (2 ^ 64 - 1) \<and>
     (unat (time l) + unat d < 2 ^ 64 \<longrightarrow>
        timeout (handles (snd (uv_timer_start l h cb d rep)) h) = time l + d) \<and>
     (2 ^ 64 \<le> unat (time l) + unat d \<longrightarrow>
        timeout (handles (snd (uv_timer_start l h cb d rep)) h) = - 1) \<and>
     time l \<le> timeout (handles (snd (uv_timer_start l h cb d rep)) h) \<and>
     d \<le> timeout (handles (snd (uv_timer_start l h cb d rep)) h) \<and>
     (d = - 1 \<and> 0 < time l \<longrightarrow>
        timeout (handles (snd (uv_timer_start l h cb d rep)) h) = - 1)"
proof (intro impI)
  assume a: "cb \<noteq> None \<and> \<not> uv__is_closing (handles l h)"
  let ?t = "timeout (handles (snd (uv_timer_start l h cb d rep)) h)"
  have t: "?t = (if time l + d < d then - 1 else time l + d)"
    using a by (simp add: timeout_after_start)
  have u: "unat ?t = min (unat (time l) + unat d) (2 ^ 64 - 1)"
    unfolding t by (rule clamp_unat)
  have r: "fst (uv_timer_start l h cb d rep) = 0"
    using a by (auto simp: uv_timer_start_def Let_def)
  have small: "unat (time l) + unat d < 2 ^ 64 \<longrightarrow> ?t = time l + d"
    unfolding t by (simp only: olen_iff) simp
  have big: "2 ^ 64 \<le> unat (time l) + unat d \<longrightarrow> ?t = - 1"
    unfolding t by (simp only: olen_iff) simp
  have bd: "unat d < 2 ^ 64" "unat (time l) < 2 ^ 64"
    using unsigned_less [of d] unsigned_less [of "time l"] by simp_all
  have ge1: "time l \<le> ?t"
    unfolding word_le_nat_alt u using bd by simp
  have ge2: "d \<le> ?t"
    unfolding word_le_nat_alt u using bd by simp
  have mx: "d = - 1 \<and> 0 < time l \<longrightarrow> ?t = - 1"
  proof
    assume h: "d = - 1 \<and> 0 < time l"
    then have "unat d = 2 ^ 64 - 1" by (simp add: unsigned_minus_1_eq_mask mask_eq_exp_minus_1)
    moreover have "0 < unat (time l)" using h by (simp add: word_less_nat_alt)
    ultimately have "2 ^ 64 \<le> unat (time l) + unat d" by simp
    then show "?t = - 1" using big by blast
  qed
  show "fst (uv_timer_start l h cb d rep) = 0 \<and>
     unat ?t = min (unat (time l) + unat d) (2 ^ 64 - 1) \<and>
     (unat (time l) + unat d < 2 ^ 64 \<longrightarrow> ?t = time l + d) \<and>
     (2 ^ 64 \<le> unat (time l) + unat d \<longrightarrow> ?t = - 1) \<and>
     time l \<le> ?t \<and> d \<le> ?t \<and> (d = - 1 \<and> 0 < time l \<longrightarrow> ?t = - 1)"
    using r u small big ge1 ge2 mx by blast
qed

theorem uv_timer_start_saturates_witness:
  "timeout (handles (snd (uv_timer_start (loop_at 7) 3 (Some 1) (- 1) 0)) 3) = - 1 \<and>
   unat (timeout (handles (snd (uv_timer_start (loop_at 7) 3 (Some 1) 100 0)) 3)) = 107"
proof -
  have h: "Some (1::nat) \<noteq> None \<and> \<not> uv__is_closing (handles (loop_at 7) 3)"
    by (simp add: loop_at_def handle_zero_def uv__is_closing_def)
  have "(0::64 word) < time (loop_at 7)" by (simp add: loop_at_def)
  then have a: "timeout (handles (snd (uv_timer_start (loop_at 7) 3 (Some 1) (- 1) 0)) 3) = - 1"
    using uv_timer_start_saturates [of "Some 1" "loop_at 7" 3 "- 1" 0] h by blast
  have "unat (timeout (handles (snd (uv_timer_start (loop_at 7) 3 (Some 1) 100 0)) 3)) =
      min (unat (time (loop_at 7)) + unat (100 :: 64 word)) (2 ^ 64 - 1)"
    using uv_timer_start_saturates [of "Some 1" "loop_at 7" 3 100 0] h by blast
  then have b: "unat (timeout (handles (snd (uv_timer_start (loop_at 7) 3 (Some 1) 100 0)) 3)) = 107"
    by (simp add: loop_at_def)
  show ?thesis using a b by (rule conjI)
qed

text \<open>
  C6, as stated, fails twice: on a closing handle with a callback and a non-zero repeat the
  restart is refused by \<^verbatim>\<open>uv_timer_start\<close> (the handle stays stopped, and
  \<^verbatim>\<open>uv_timer_again\<close> still returns 0); and when the cached time is \<open>2^64 - 1\<close> the
  saturated deadline equals the loop time, the timer is due again at once and
  \<^verbatim>\<open>uv__run_timers\<close> never returns.
\<close>

theorem uv_timer_again_counterexample:
  "timer_cb (handles closed_timer 3) \<noteq> None \<and> repeat (handles closed_timer 3) \<noteq> 0 \<and>
   fst (uv_timer_again closed_timer 3) = 0 \<and>
   \<not> uv__is_active (handles (snd (uv_timer_again closed_timer 3)) 3) \<and>
   3 \<notin> set (timer_heap (snd (uv_timer_again closed_timer 3))) \<and>
   timer_inv overdue_at_max \<and> 3 \<in> due overdue_at_max \<and>
   repeat (handles overdue_at_max 3) \<noteq> 0 \<and>
   uv__run_timers cb_noop overdue_at_max = None"
proof -
  have cl: "uv__is_closing (handles closed_timer 3)"
    by (simp add: closed_timer_eval uv__is_closing_def)
  have ia: "\<not> uv__is_active (handles closed_timer 3)"
    by (simp add: closed_timer_eval uv__is_active_def)
  then have st: "snd (uv_timer_stop closed_timer 3) = closed_timer"
    by (simp add: uv_timer_stop_def)
  have s: "snd (uv_timer_again closed_timer 3) = closed_timer"
    using again_closing [OF cl] st by auto
  have a: "timer_cb (handles closed_timer 3) \<noteq> None" "repeat (handles closed_timer 3) \<noteq> 0"
    by (simp_all add: closed_timer_eval)
  have b: "fst (uv_timer_again closed_timer 3) = 0"
    using a by (auto simp: uv_timer_again_def Let_def)
  have c: "\<not> uv__is_active (handles (snd (uv_timer_again closed_timer 3)) 3)"
    "3 \<notin> set (timer_heap (snd (uv_timer_again closed_timer 3)))"
    unfolding s using ia by (simp_all add: closed_timer_eval)
  have d: "3 \<in> due overdue_at_max" "repeat (handles overdue_at_max 3) \<noteq> 0"
    by (simp_all add: due_def overdue_at_max_eval)
  have "uv__run_timers cb_noop overdue_at_max = None"
    by (rule run_never_returns [OF cb_inert_noop timer_inv_overdue_at_max])
       (simp_all add: overdue_at_max_eval)
  then show ?thesis using a b c d timer_inv_overdue_at_max by blast
qed

text \<open>
  C6 (amended). For a handle with a callback, \<^verbatim>\<open>uv_timer_again\<close> returns 0; with repeat
  zero it changes nothing; with repeat non-zero it calls \<^verbatim>\<open>uv_timer_stop\<close> and then
  \<^verbatim>\<open>uv_timer_start\<close> with delay = repeat and repeat = repeat, and when the handle is not
  closing the handle ends active, in the heap, with the deadline loop time plus repeat
  (saturated at \<open>2^64 - 1\<close>), whatever its old deadline was. Consequently, in a consistent
  loop whose cached time is below \<open>2^64 - 1\<close> and with callbacks that change nothing, a due
  repeating timer fires exactly once in a call of \<^verbatim>\<open>uv__run_timers\<close>, and its next
  deadline is loop time plus repeat (saturated), strictly after the loop time.
\<close>

theorem uv_timer_again_rearm:
  "timer_cb (handles l h) \<noteq> None \<longrightarrow>
     fst (uv_timer_again l h) = 0 \<and>
     (repeat (handles l h) = 0 \<longrightarrow> uv_timer_again l h = (0, l)) \<and>
     (repeat (handles l h) \<noteq> 0 \<longrightarrow>
        snd (uv_timer_again l h) =
          snd (uv_timer_start (snd (uv_timer_stop l h)) h (timer_cb (handles l h))
                 (repeat (handles l h)) (repeat (handles l h))) \<and>
        (\<not> uv__is_closing (handles l h) \<longrightarrow>
           timeout (handles (snd (uv_timer_again l h)) h) = rearmed l h \<and>
           unat (rearmed l h) = min (unat (time l) + unat (repeat (handles l h))) (2 ^ 64 - 1) \<and>
           repeat (handles (snd (uv_timer_again l h)) h) = repeat (handles l h) \<and>
           uv__is_active (handles (snd (uv_timer_again l h)) h) \<and>
           (heap_active_inv l \<longrightarrow> h \<in> set (timer_heap (snd (uv_timer_again l h)))))) \<and>
     (timer_inv l \<and> cb_inert cbs \<and> time l \<noteq> - 1 \<and> h \<in> due l \<and> repeat (handles l h) \<noteq> 0 \<longrightarrow>
        (\<exists>tr l'. uv__run_timers cbs l = Some (Inr (tr, l')) \<and> count_list tr h = 1 \<and>
           timeout (handles l' h) = rearmed l h \<and> time l < timeout (handles l' h) \<and>
           uv__is_active (handles l' h)))"
proof (intro impI conjI)
  assume cb: "timer_cb (handles l h) \<noteq> None"
  show "fst (uv_timer_again l h) = 0" using cb by (auto simp: uv_timer_again_def Let_def)
  show "uv_timer_again l h = (0, l)" if "repeat (handles l h) = 0"
    using cb that by (auto simp: uv_timer_again_def)
  show "snd (uv_timer_again l h) =
          snd (uv_timer_start (snd (uv_timer_stop l h)) h (timer_cb (handles l h))
                 (repeat (handles l h)) (repeat (handles l h)))"
    if "repeat (handles l h) \<noteq> 0"
    using cb that by (auto simp: snd_uv_timer_again)
  show "timeout (handles (snd (uv_timer_again l h)) h) = rearmed l h"
    if "repeat (handles l h) \<noteq> 0" "\<not> uv__is_closing (handles l h)"
    using cb that by (rule again_not_closing(1))
  show "unat (rearmed l h) = min (unat (time l) + unat (repeat (handles l h))) (2 ^ 64 - 1)"
    by (rule rearmed_unat)
  show "repeat (handles (snd (uv_timer_again l h)) h) = repeat (handles l h)"
    if "repeat (handles l h) \<noteq> 0" "\<not> uv__is_closing (handles l h)"
    using cb that by (rule again_not_closing(2))
  show "uv__is_active (handles (snd (uv_timer_again l h)) h)"
    if "repeat (handles l h) \<noteq> 0" "\<not> uv__is_closing (handles l h)"
    using cb that by (rule again_not_closing(3))
  show "h \<in> set (timer_heap (snd (uv_timer_again l h)))"
    if "repeat (handles l h) \<noteq> 0" "\<not> uv__is_closing (handles l h)" "heap_active_inv l"
    using cb that by (rule again_not_closing(4))
  show "\<exists>tr l'. uv__run_timers cbs l = Some (Inr (tr, l')) \<and> count_list tr h = 1 \<and>
           timeout (handles l' h) = rearmed l h \<and> time l < timeout (handles l' h) \<and>
           uv__is_active (handles l' h)"
    if "timer_inv l \<and> cb_inert cbs \<and> time l \<noteq> - 1 \<and> h \<in> due l \<and> repeat (handles l h) \<noteq> 0"
    using that run_fires_once by blast
qed

theorem uv_timer_again_rearm_witness:
  "timer_cb (handles drifted 3) \<noteq> None \<and> repeat (handles drifted 3) = 10 \<and>
   timeout (handles drifted 3) = 10 \<and> time drifted = 35 \<and>
   timeout (handles (snd (uv_timer_again drifted 3)) 3) = 45 \<and>
   (\<exists>tr l'. uv__run_timers cb_noop drifted = Some (Inr (tr, l')) \<and> count_list tr 3 = 1 \<and>
      timeout (handles l' 3) = 45) \<and>
   uv__run_timers cb_noop drifted =
     Some (Inr ([3], snd (uv_timer_again (snd (uv_timer_stop drifted 3)) 3)))"
proof -
  have a: "timer_cb (handles drifted 3) \<noteq> None" "repeat (handles drifted 3) = 10"
    "timeout (handles drifted 3) = 10" "time drifted = 35"
    "\<not> uv__is_closing (handles drifted 3)" "repeat (handles drifted 3) \<noteq> 0"
    by (simp_all add: drifted_eval uv__is_closing_def)
  have re: "rearmed drifted 3 = 45" by (simp add: rearmed_def drifted_eval)
  have d: "3 \<in> due drifted" "time drifted \<noteq> - 1" by (simp_all add: due_def drifted_eval)
  note t = uv_timer_again_rearm [of drifted 3 cb_noop, rule_format, OF a(1)]
  have "timeout (handles (snd (uv_timer_again drifted 3)) 3) = rearmed drifted 3"
    using t a(5,6) by blast
  then have x: "timeout (handles (snd (uv_timer_again drifted 3)) 3) = 45"
    unfolding re .
  have "\<exists>tr l'. uv__run_timers cb_noop drifted = Some (Inr (tr, l')) \<and> count_list tr 3 = 1 \<and>
           timeout (handles l' 3) = rearmed drifted 3 \<and> time drifted < timeout (handles l' 3) \<and>
           uv__is_active (handles l' 3)"
    using t timer_inv_drifted cb_inert_noop d a(6) by blast
  then have y: "\<exists>tr l'. uv__run_timers cb_noop drifted = Some (Inr (tr, l')) \<and> count_list tr 3 = 1 \<and>
      timeout (handles l' 3) = 45"
    unfolding re by blast
  show ?thesis using a(1-4) x y drifted_run by blast
qed

text \<open>
  C7. \<^verbatim>\<open>uv_timer_start\<close> returns \<^verbatim>\<open>UV_EINVAL\<close> exactly when the callback is
  \<^verbatim>\<open>NULL\<close> or the handle is closing, \<^verbatim>\<open>uv_timer_again\<close> exactly when the handle's
  callback is \<^verbatim>\<open>NULL\<close>; a failing call leaves the whole loop (handles, heap, counter) as
  it was, and a call that does not fail returns 0.
\<close>

theorem uv_timer_einval:
  "(fst (uv_timer_start l h cb tmo rep) = UV_EINVAL \<longleftrightarrow> cb = None \<or> uv__is_closing (handles l h)) \<and>
   (fst (uv_timer_start l h cb tmo rep) = UV_EINVAL \<longrightarrow> snd (uv_timer_start l h cb tmo rep) = l) \<and>
   (fst (uv_timer_start l h cb tmo rep) \<noteq> UV_EINVAL \<longrightarrow> fst (uv_timer_start l h cb tmo rep) = 0) \<and>
   (fst (uv_timer_again l h) = UV_EINVAL \<longleftrightarrow> timer_cb (handles l h) = None) \<and>
   (fst (uv_timer_again l h) = UV_EINVAL \<longrightarrow> snd (uv_timer_again l h) = l) \<and>
   (fst (uv_timer_again l h) \<noteq> UV_EINVAL \<longrightarrow> fst (uv_timer_again l h) = 0)"
  by (auto simp: uv_timer_start_def uv_timer_again_def UV_EINVAL_def Let_def)

theorem uv_timer_einval_witness:
  "fst (uv_timer_start (loop_at 0) 3 None 5 0) = UV_EINVAL \<and>
   snd (uv_timer_start (loop_at 0) 3 None 5 0) = loop_at 0 \<and>
   fst (uv_timer_again (loop_at 0) 3) = UV_EINVAL \<and>
   snd (uv_timer_again (loop_at 0) 3) = loop_at 0 \<and>
   fst (uv_timer_start (loop_at 0) 3 (Some 1) 5 0) = 0"
proof -
  have c: "timer_cb (handles (loop_at 0) 3) = None" "\<not> uv__is_closing (handles (loop_at 0) 3)"
    by (simp_all add: loop_at_def handle_zero_def uv__is_closing_def)
  have n: "(None :: cb_id option) = None" "Some (1::nat) \<noteq> None" by simp_all
  show ?thesis
    using uv_timer_einval [of "loop_at 0" 3 None 5 0] uv_timer_einval [of "loop_at 0" 3 "Some 1" 5 0]
      c n by blast
qed

text \<open>
  C8, as stated, fails when the cached time is \<open>2^64 - 1\<close>: the re-armed deadline
  saturates to the loop time itself, the timer is due again, and the call never returns
  although the callback does nothing.
\<close>

theorem uv__run_timers_counterexample:
  "cb_inert cb_noop \<and> timer_inv at_max \<and> uv__run_timers cb_noop at_max = None"
proof -
  have "uv__run_timers cb_noop at_max = None"
    by (rule run_never_returns [OF cb_inert_noop timer_inv_at_max]) (simp_all add: at_max_eval)
  then show ?thesis using cb_inert_noop timer_inv_at_max by blast
qed

text \<open>
  C8 (amended). In a consistent loop whose cached time is below \<open>2^64 - 1\<close>, with callbacks
  that leave the timers and the cached time alone, \<^verbatim>\<open>uv__run_timers\<close> returns; the
  handles it fires are exactly the handles that were due at the start, each once, so their
  number is at most the size of the heap; no handle is due at the end; a re-armed repeating
  timer's deadline (loop time plus a positive repeat, saturated) is strictly after the
  cached time. The loop is consistent at the end, and when the start_ids of the heap are
  distinct and below the counter and the counter stays below \<open>2^64\<close> when it is
  incremented once for every due handle, they are distinct and below the counter at the end.
\<close>

theorem uv__run_timers_bounded:
  "timer_inv l \<and> cb_keeps_timers cbs \<and> time l \<noteq> - 1 \<longrightarrow>
     (\<exists>tr l'. uv__run_timers cbs l = Some (Inr (tr, l')) \<and> distinct tr \<and> set tr = due l \<and>
        length tr \<le> length (timer_heap l) \<and> timer_inv l' \<and> time l' = time l \<and> due l' = {} \<and>
        (start_id_inv l \<and> unat (timer_counter l) + card (due l) < 2 ^ 64 \<longrightarrow>
           start_id_inv l')) \<and>
     (\<forall>h. repeat (handles l h) \<noteq> 0 \<longrightarrow> time l < rearmed l h)"
proof (intro impI conjI allI)
  assume a: "timer_inv l \<and> cb_keeps_timers cbs \<and> time l \<noteq> - 1"
  then have inv: "timer_inv l" and k: "cb_keeps_timers cbs" and nm: "time l \<noteq> - 1" by blast+
  obtain tr l' where r: "run_timers_from cbs l [] = Some (Inr ([] @ tr, l'))"
    "distinct tr" "set tr = due l" "timer_inv l'" "time l' = time l" "due l' = {}"
    "start_id_inv l \<and> unat (timer_counter l) + card (due l) < 2 ^ 64 \<longrightarrow> start_id_inv l'"
    using run_timers_total [OF k nm inv, of "[]"] by blast
  have "length tr = card (due l)" using r(2,3) distinct_card [of tr] by simp
  also have "\<dots> \<le> card (set (timer_heap l))"
    by (rule card_mono) (auto simp: due_def)
  also have "\<dots> \<le> length (timer_heap l)" by (rule card_length)
  finally have len: "length tr \<le> length (timer_heap l)" .
  have "uv__run_timers cbs l = Some (Inr (tr, l'))" using r(1) by (simp add: uv__run_timers_def)
  then show "\<exists>tr l'. uv__run_timers cbs l = Some (Inr (tr, l')) \<and> distinct tr \<and> set tr = due l \<and>
        length tr \<le> length (timer_heap l) \<and> timer_inv l' \<and> time l' = time l \<and> due l' = {} \<and>
        (start_id_inv l \<and> unat (timer_counter l) + card (due l) < 2 ^ 64 \<longrightarrow>
           start_id_inv l')"
    using r(2-7) len by (intro exI [of _ tr] exI [of _ l'] conjI)
  show "time l < rearmed l h" if "repeat (handles l h) \<noteq> 0" for h
    using nm that by (rule rearmed_later)
qed

theorem uv__run_timers_bounded_witness:
  "timer_inv drifted \<and> cb_keeps_timers cb_noop \<and> time drifted \<noteq> - 1 \<and> due drifted = {3} \<and>
   start_id_inv drifted \<and> unat (timer_counter drifted) + card (due drifted) < 2 ^ 64 \<and>
   (\<exists>tr l'. uv__run_timers cb_noop drifted = Some (Inr (tr, l')) \<and> distinct tr \<and>
      set tr = {3} \<and> length tr \<le> 1 \<and> time l' = 35 \<and> due l' = {} \<and> start_id_inv l') \<and>
   time drifted < rearmed drifted 3 \<and>
   uv__run_timers cb_noop drifted =
     Some (Inr ([3], snd (uv_timer_again (snd (uv_timer_stop drifted 3)) 3))) \<and>
   timer_heap (snd (uv_timer_again (snd (uv_timer_stop drifted 3)) 3)) = [3] \<and>
   timeout (handles (snd (uv_timer_again (snd (uv_timer_stop drifted 3)) 3)) 3) = 45"
proof -
  have k: "cb_keeps_timers cb_noop" using cb_inert_noop by (rule cb_inert_keeps)
  have nm: "time drifted \<noteq> - 1" by (simp add: drifted_eval)
  have d: "due drifted = {3}" by (auto simp: due_def drifted_eval)
  have rp: "repeat (handles drifted 3) \<noteq> 0" by (simp add: drifted_eval)
  have ln: "length (timer_heap drifted) = 1" "time drifted = 35" by (simp_all add: drifted_eval)
  note t = uv__run_timers_bounded [of drifted cb_noop, rule_format]
  have bd: "unat (timer_counter drifted) + card (due drifted) < 2 ^ 64"
    unfolding d by (simp add: drifted_def one_timer_eval)
  have "\<exists>tr l'. uv__run_timers cb_noop drifted = Some (Inr (tr, l')) \<and> distinct tr \<and>
      set tr = due drifted \<and> length tr \<le> length (timer_heap drifted) \<and> timer_inv l' \<and>
      time l' = time drifted \<and> due l' = {} \<and>
      (start_id_inv drifted \<and> unat (timer_counter drifted) + card (due drifted) < 2 ^ 64 \<longrightarrow>
         start_id_inv l')"
    using t timer_inv_drifted k nm by blast
  then have e: "\<exists>tr l'. uv__run_timers cb_noop drifted = Some (Inr (tr, l')) \<and> distinct tr \<and>
      set tr = {3} \<and> length tr \<le> 1 \<and> time l' = 35 \<and> due l' = {} \<and> start_id_inv l'"
    using start_id_inv_drifted bd unfolding d ln by blast
  have "time drifted < rearmed drifted 3" using t timer_inv_drifted k nm rp by blast
  moreover have "timeout (handles (snd (uv_timer_again (snd (uv_timer_stop drifted 3)) 3)) 3) = 45"
    by (simp add: drifted_rearmed_eval)
  ultimately show ?thesis
    using timer_inv_drifted k nm d start_id_inv_drifted bd e drifted_run
      drifted_rearmed_eval(1) by blast
qed

text \<open>
  C9. \<^verbatim>\<open>uv_timer_stop\<close> always returns 0; on an inactive handle it returns the loop
  untouched; after a stop the handle is inactive, so a second stop in a row changes nothing:
  stopping twice is stopping once.
\<close>

theorem uv_timer_stop_idempotent:
  "fst (uv_timer_stop l h) = 0 \<and>
   (\<not> uv__is_active (handles l h) \<longrightarrow> uv_timer_stop l h = (0, l)) \<and>
   \<not> uv__is_active (handles (snd (uv_timer_stop l h)) h) \<and>
   uv_timer_stop (snd (uv_timer_stop l h)) h = uv_timer_stop l h"
  by (simp add: uv_timer_stop_def set_handle_def Let_def uv__is_active_def uv__handle_stop_def)

theorem uv_timer_stop_idempotent_witness:
  "uv_timer_stop (loop_at 0) 3 = (0, loop_at 0) \<and>
   uv_timer_stop (snd (uv_timer_stop (snd (uv_timer_start (loop_at 0) 3 (Some 1) 5 0)) 3)) 3 =
     uv_timer_stop (snd (uv_timer_start (loop_at 0) 3 (Some 1) 5 0)) 3"
proof -
  have "\<not> uv__is_active (handles (loop_at 0) 3)"
    by (simp add: loop_at_def handle_zero_def uv__is_active_def)
  then have "uv_timer_stop (loop_at 0) 3 = (0, loop_at 0)"
    using uv_timer_stop_idempotent [of "loop_at 0" 3] by blast
  then show ?thesis
    using uv_timer_stop_idempotent [of "snd (uv_timer_start (loop_at 0) 3 (Some 1) 5 0)" 3]
    by blast
qed

text \<open>
  C10. \<^verbatim>\<open>uv_timer_set_repeat\<close> writes the repeat field of the handle and nothing else:
  the handle's timeout, start_id, callback and flags, every other handle, the heap (and so
  the handle's position in it), the loop time and the counter are unchanged; the comparator,
  the next poll timeout and the handle's due-in are what they were.
  \<^verbatim>\<open>uv_timer_get_repeat\<close> then returns the value written.
\<close>

theorem uv_timer_set_repeat_frame:
  "uv_timer_get_repeat (uv_timer_set_repeat l h v) h = v \<and>
   timeout (handles (uv_timer_set_repeat l h v) h) = timeout (handles l h) \<and>
   start_id (handles (uv_timer_set_repeat l h v) h) = start_id (handles l h) \<and>
   timer_cb (handles (uv_timer_set_repeat l h v) h) = timer_cb (handles l h) \<and>
   active (handles (uv_timer_set_repeat l h v) h) = active (handles l h) \<and>
   closing (handles (uv_timer_set_repeat l h v) h) = closing (handles l h) \<and>
   (\<forall>h'. h' \<noteq> h \<longrightarrow> handles (uv_timer_set_repeat l h v) h' = handles l h') \<and>
   timer_heap (uv_timer_set_repeat l h v) = timer_heap l \<and>
   time (uv_timer_set_repeat l h v) = time l \<and>
   timer_counter (uv_timer_set_repeat l h v) = timer_counter l \<and>
   timer_less_than (handles (uv_timer_set_repeat l h v)) = timer_less_than (handles l) \<and>
   uv__next_timeout (uv_timer_set_repeat l h v) = uv__next_timeout l \<and>
   uv_timer_get_due_in (uv_timer_set_repeat l h v) h = uv_timer_get_due_in l h"
  by (auto simp: uv_timer_set_repeat_def uv_timer_get_repeat_def set_handle_def
      timer_less_than_def uv__next_timeout_def uv_timer_get_due_in_def fun_eq_iff Let_def
      split: option.splits)

theorem uv_timer_set_repeat_frame_witness:
  "uv_timer_get_repeat (uv_timer_set_repeat (loop_at 0) 3 9) 3 = 9 \<and>
   handles (uv_timer_set_repeat (loop_at 0) 3 9) 4 = handles (loop_at 0) 4"
proof -
  have "(4::nat) \<noteq> 3" by simp
  then show ?thesis using uv_timer_set_repeat_frame [of "loop_at 0" 3 9] by blast
qed

end
